theory Spec2Isabelle
  imports Main "HOL-Library.Word"
begin

section \<open>The double-buffered SD-card writer of writer.cpp\<close>

text \<open>
  The module keeps its session in static variables, talks to FreeRTOS (a queue, a mutex,
  an event group, a task) and to an SdFat file.  The static variables, the objects of the
  kernel they refer to, the locals of the writer task and the card are the fields of one
  record; every function of the module is a function on that record.  What a call into
  FreeRTOS or SdFat answers is not decided by the module: the answers are the fields of
  the record \<open>env\<close>, a parameter of every function.
\<close>

subsection \<open>Constants and data\<close>

type_synonym byte = "8 word"

text \<open>A handle of the kernel; the \<^verbatim>\<open>NULL\<close> handle is \<open>None\<close>.\<close>
type_synonym handle = nat

text \<open>The address of a byte array.\<close>
type_synonym addr = nat

definition BUFF_SIZE :: nat where
  "BUFF_SIZE = 16384"

text \<open>\<^verbatim>\<open>xQueueCreate(3, sizeof(Command))\<close>: the length of the queue.\<close>
definition QUEUE_LENGTH :: nat where
  "QUEUE_LENGTH = 3"

text \<open>The two arrays \<^verbatim>\<open>buff_plane1\<close> and \<^verbatim>\<open>buff_plane2\<close>, named by their addresses.\<close>
definition buff_plane1 :: addr where
  "buff_plane1 = 1"

definition buff_plane2 :: addr where
  "buff_plane2 = 2"

datatype opcode = OP_FLUSH | OP_EXIT

text \<open>\<^verbatim>\<open>struct Command\<close>: the payload is referred to by address, not copied.\<close>
record Command =
  cmd_op :: opcode
  cmd_data :: addr
  cmd_size :: nat

text \<open>Where the writer task stands: not created, before \<^verbatim>\<open>file.open\<close>, in
  \<^verbatim>\<open>xQueueReceive\<close>, holding a received command it has not yet handled, or past
  \<^verbatim>\<open>vTaskDelete\<close>.\<close>
datatype task_pc = No_task | At_open | At_receive | At_write | Task_done

text \<open>The calls made on the SdFat file, in order.\<close>
datatype sd_call =
    SD_open string bool
  | SD_write "byte list" nat
  | SD_sync bool
  | SD_close

record world =
  \<comment> \<open>the static variables of writer.cpp\<close>
  state :: int
  mutex :: "handle option"
  queue :: "handle option"
  task :: "handle option"
  events :: "handle option"
  mem :: "addr \<Rightarrow> nat \<Rightarrow> byte"
  cur_buff :: addr
  used :: nat
  \<comment> \<open>the kernel: objects alive, contents of the queue, number of xQueueSend calls,
      the TASK_COMPLETE bit\<close>
  live :: "handle set"
  chan :: "Command list"
  n_sends :: nat
  ev_complete :: bool
  \<comment> \<open>the writer task: program point, its argument, its locals \<open>error\<close> and \<open>cmd\<close>\<close>
  t_pc :: task_pc
  t_path :: string
  t_error :: bool
  t_cmd :: Command
  \<comment> \<open>the card: the files on it, and the calls made on the open file\<close>
  card :: "string \<rightharpoonup> byte list"
  sd_log :: "sd_call list"

text \<open>
  The answers of the environment.  The creation calls answer a handle or \<^verbatim>\<open>NULL\<close>;
  \<^verbatim>\<open>xSemaphoreTake\<close> answers \<^verbatim>\<open>pdTRUE\<close> or not; the \<open>k\<close>-th call of \<^verbatim>\<open>xQueueSend\<close>
  answers \<^verbatim>\<open>pdPASS\<close> or not; \<^verbatim>\<open>file.open\<close> and \<^verbatim>\<open>file.sync\<close> answer a boolean and
  \<^verbatim>\<open>file.write\<close> the number of bytes written.  The storage answers are indexed by the
  number of storage calls made before.
\<close>
record env =
  queue_create :: "handle option"
  mutex_create :: "handle option"
  events_create :: "handle option"
  task_create :: "handle option"
  sem_take :: bool
  queue_send :: "nat \<Rightarrow> bool"
  sd_open :: bool
  sd_write :: "nat \<Rightarrow> nat \<Rightarrow> nat"
  sd_sync :: "nat \<Rightarrow> bool"

subsection \<open>The kernel calls\<close>

text \<open>\<^verbatim>\<open>xQueueSend(queue, &cmd, portMAX_DELAY)\<close>: on \<^verbatim>\<open>pdPASS\<close> the command is the new
  last element of the queue.\<close>
definition xQueueSend :: "env \<Rightarrow> Command \<Rightarrow> world \<Rightarrow> bool \<times> world" where
  "xQueueSend e cmd w =
     (if queue_send e (n_sends w)
      then (True, w\<lparr>chan := chan w @ [cmd], n_sends := n_sends w + 1\<rparr>)
      else (False, w\<lparr>n_sends := n_sends w + 1\<rparr>))"

definition vQueueDelete :: "handle \<Rightarrow> world \<Rightarrow> world" where
  "vQueueDelete h w = w\<lparr>live := live w - {h}, chan := []\<rparr>"

definition vSemaphoreDelete :: "handle \<Rightarrow> world \<Rightarrow> world" where
  "vSemaphoreDelete h w = w\<lparr>live := live w - {h}\<rparr>"

definition vEventGroupDelete :: "handle \<Rightarrow> world \<Rightarrow> world" where
  "vEventGroupDelete h w = w\<lparr>live := live w - {h}, ev_complete := False\<rparr>"

definition vTaskDelete :: "handle \<Rightarrow> world \<Rightarrow> world" where
  "vTaskDelete h w = w\<lparr>live := live w - {h}, t_pc := Task_done\<rparr>"

subsection \<open>The writer task\<close>

text \<open>\<^verbatim>\<open>error = !file.open(path, O_WRONLY | O_CREAT | O_TRUNC)\<close>: a successful open leaves
  an empty file at the path.\<close>
definition task_open :: "env \<Rightarrow> world \<Rightarrow> world" where
  "task_open e w =
     (if sd_open e
      then w\<lparr>card := (card w)(t_path w \<mapsto> []), t_error := False, t_pc := At_receive,
             sd_log := sd_log w @ [SD_open (t_path w) True]\<rparr>
      else w\<lparr>t_error := True, t_pc := At_receive,
             sd_log := sd_log w @ [SD_open (t_path w) False]\<rparr>)"

text \<open>The bytes a command refers to, read when the task writes them.\<close>
definition payload :: "world \<Rightarrow> Command \<Rightarrow> byte list" where
  "payload w cmd = map (mem w (cmd_data cmd)) [0..<cmd_size cmd]"

text \<open>Appending to the open file; nothing happens when the path has no file.\<close>
definition file_append :: "string \<Rightarrow> byte list \<Rightarrow> (string \<rightharpoonup> byte list) \<Rightarrow> (string \<rightharpoonup> byte list)" where
  "file_append p bs c = (case c p of None \<Rightarrow> c | Some old \<Rightarrow> c(p \<mapsto> old @ bs))"

text \<open>
  \<^verbatim>\<open>file.write(cmd.data, cmd.size)\<close> followed, when everything was written, by
  \<^verbatim>\<open>file.sync()\<close>.  The file receives as many bytes of the payload as the call answers.
\<close>
definition task_write :: "env \<Rightarrow> Command \<Rightarrow> world \<Rightarrow> world" where
  "task_write e cmd w =
     (let n = sd_write e (length (sd_log w)) (cmd_size cmd);
          w1 = w\<lparr>card := file_append (t_path w) (take n (payload w cmd)) (card w),
                 sd_log := sd_log w @ [SD_write (payload w cmd) n]\<rparr>
      in if n = cmd_size cmd
         then (let ok = sd_sync e (length (sd_log w1))
               in w1\<lparr>t_error := \<not> ok, sd_log := sd_log w1 @ [SD_sync ok]\<rparr>)
         else w1\<lparr>t_error := True\<rparr>)"

text \<open>After the loop: \<^verbatim>\<open>file.close()\<close>, \<^verbatim>\<open>xEventGroupSetBits(events, TASK_COMPLETE)\<close>,
  \<^verbatim>\<open>vTaskDelete(NULL)\<close>, which deletes the calling task (the one \<^verbatim>\<open>task\<close> refers to).\<close>
definition task_exit :: "world \<Rightarrow> world" where
  "task_exit w =
     w\<lparr>sd_log := sd_log w @ [SD_close], ev_complete := True, t_pc := Task_done,
       live := live w - set_option (task w)\<rparr>"

text \<open>\<^verbatim>\<open>xQueueReceive(queue, &cmd, portMAX_DELAY)\<close> answering \<^verbatim>\<open>pdPASS\<close>: the first
  command leaves the queue and is the task's \<^verbatim>\<open>cmd\<close>.  The buffer it refers to has not
  been read yet.\<close>
definition task_receive :: "Command \<Rightarrow> Command list \<Rightarrow> world \<Rightarrow> world" where
  "task_receive cmd rest w = w\<lparr>chan := rest, t_cmd := cmd, t_pc := At_write\<rparr>"

text \<open>The rest of the body of the \<^verbatim>\<open>while (true)\<close> loop for the received command: the
  write, and the test for \<^verbatim>\<open>OP_EXIT\<close>.  The buffer is read here.\<close>
definition task_command :: "env \<Rightarrow> Command \<Rightarrow> world \<Rightarrow> world" where
  "task_command e cmd w =
     (let w1 = (if \<not> t_error w \<and> cmd_size cmd > 0 then task_write e cmd w else w)
      in if cmd_op cmd = OP_EXIT then task_exit w1 else w1\<lparr>t_pc := At_receive\<rparr>)"

text \<open>
  One step of the task: the open, the receipt of a command, or the handling of the command
  received.  The producer can run between the receipt and the handling.  \<open>None\<close>: the task
  cannot move (no task, task gone, or \<^verbatim>\<open>xQueueReceive\<close> waiting on an empty queue).
\<close>
definition task_step :: "env \<Rightarrow> world \<Rightarrow> world option" where
  "task_step e w =
     (case t_pc w of
        At_open \<Rightarrow> Some (task_open e w)
      | At_receive \<Rightarrow>
          (case chan w of
             [] \<Rightarrow> None
           | cmd # rest \<Rightarrow> Some (task_receive cmd rest w))
      | At_write \<Rightarrow> Some (task_command e (t_cmd w) w)
      | _ \<Rightarrow> None)"

text \<open>The receive loop run on the commands \<open>cs\<close> of the queue while nothing else runs:
  it stops after an \<^verbatim>\<open>OP_EXIT\<close> command, or waits once the queue is empty.\<close>
fun task_loop :: "env \<Rightarrow> Command list \<Rightarrow> world \<Rightarrow> world" where
  "task_loop e [] w = w\<lparr>chan := []\<rparr>"
| "task_loop e (cmd # rest) w =
     (let w1 = task_command e cmd (task_receive cmd rest w)
      in if cmd_op cmd = OP_EXIT then w1 else task_loop e rest w1)"

text \<open>The task running alone from where it stands.\<close>
definition task_run :: "env \<Rightarrow> world \<Rightarrow> world" where
  "task_run e w =
     (case t_pc w of
        At_open \<Rightarrow> (let w1 = task_open e w in task_loop e (chan w1) w1)
      | At_receive \<Rightarrow> task_loop e (chan w) w
      | At_write \<Rightarrow>
          (let w1 = task_command e (t_cmd w) w
           in if cmd_op (t_cmd w) = OP_EXIT then w1 else task_loop e (chan w1) w1)
      | _ \<Rightarrow> w)"

text \<open>
  \<^verbatim>\<open>xEventGroupWaitBits(events, TASK_COMPLETE, pdTRUE, pdTRUE, portMAX_DELAY)\<close>: the caller
  waits, the task runs; the call returns once the bit is set and clears it.  \<open>None\<close>: the
  bit is never set and the call never returns.
\<close>
definition xEventGroupWaitBits :: "env \<Rightarrow> world \<Rightarrow> world option" where
  "xEventGroupWaitBits e w =
     (let w1 = (if ev_complete w then w else task_run e w)
      in if ev_complete w1 then Some (w1\<lparr>ev_complete := False\<rparr>) else None)"

subsection \<open>push_byte\<close>

text \<open>
  \<^verbatim>\<open>cur_buff[used++] = b\<close>, and the rotation when the buffer is full.  The error value is
  \<^verbatim>\<open>__LINE__\<close> at the place of \<^verbatim>\<open>DEFAULT_ERROR\<close>.  The result is the return value, the new
  value of \<^verbatim>\<open>*dst\<close> and the new state.
\<close>
definition push_byte :: "env \<Rightarrow> byte \<Rightarrow> bool \<Rightarrow> world \<Rightarrow> int \<times> bool \<times> world" where
  "push_byte e b dst w =
     (let w1 = w\<lparr>mem := (mem w)(cur_buff w := (mem w (cur_buff w))(used w := b)),
                 used := used w + 1\<rparr>
      in if used w1 = BUFF_SIZE
         then (let cmd = \<lparr>cmd_op = OP_FLUSH, cmd_data = cur_buff w1, cmd_size = BUFF_SIZE\<rparr>;
                   (ok, w2) = xQueueSend e cmd w1;
                   ret = (if ok then 0 else 134);
                   w3 = w2\<lparr>cur_buff := (if cur_buff w2 = buff_plane1 then buff_plane2
                                          else buff_plane1),
                           used := 0\<rparr>
               in (ret, True, w3))
         else (0, dst, w1))"

subsection \<open>writer_start\<close>

text \<open>The creation calls: the handle answered is stored in the static variable, and a
  created object is alive.\<close>
definition xQueueCreate :: "env \<Rightarrow> world \<Rightarrow> world" where
  "xQueueCreate e w =
     (case queue_create e of
        None \<Rightarrow> w\<lparr>queue := None\<rparr>
      | Some h \<Rightarrow> w\<lparr>queue := Some h, live := insert h (live w), chan := []\<rparr>)"

definition xSemaphoreCreateMutex :: "env \<Rightarrow> world \<Rightarrow> world" where
  "xSemaphoreCreateMutex e w =
     (case mutex_create e of
        None \<Rightarrow> w\<lparr>mutex := None\<rparr>
      | Some h \<Rightarrow> w\<lparr>mutex := Some h, live := insert h (live w)\<rparr>)"

definition xEventGroupCreate :: "env \<Rightarrow> world \<Rightarrow> world" where
  "xEventGroupCreate e w =
     (case events_create e of
        None \<Rightarrow> w\<lparr>events := None\<rparr>
      | Some h \<Rightarrow> w\<lparr>events := Some h, live := insert h (live w), ev_complete := False\<rparr>)"

text \<open>\<^verbatim>\<open>xTaskCreateUniversal(writer_task_func, ..., (void*)path, 1, &task, PRO_CPU_NUM)\<close>:
  on \<^verbatim>\<open>pdPASS\<close> the handle is stored and the task stands before its open; otherwise
  \<^verbatim>\<open>task\<close> is not written.\<close>
definition xTaskCreateUniversal :: "env \<Rightarrow> string \<Rightarrow> world \<Rightarrow> bool \<times> world" where
  "xTaskCreateUniversal e p w =
     (case task_create e of
        None \<Rightarrow> (False, w)
      | Some h \<Rightarrow> (True, w\<lparr>task := Some h, live := insert h (live w),
                           t_pc := At_open, t_path := p\<rparr>))"

text \<open>The block \<^verbatim>\<open>if (ret) { ... }\<close> at the end of \<^verbatim>\<open>writer_start\<close>.\<close>
definition start_cleanup :: "world \<Rightarrow> world" where
  "start_cleanup w =
     (let w1 = (case queue w of None \<Rightarrow> w | Some h \<Rightarrow> vQueueDelete h w);
          w2 = (case mutex w1 of None \<Rightarrow> w1 | Some h \<Rightarrow> vSemaphoreDelete h w1);
          w3 = (case events w2 of None \<Rightarrow> w2 | Some h \<Rightarrow> vEventGroupDelete h w2);
          w4 = (case task w3 of None \<Rightarrow> w3 | Some h \<Rightarrow> vTaskDelete h w3)
      in w4\<lparr>queue := None, mutex := None, events := None, task := None\<rparr>)"

text \<open>The allocations of \<^verbatim>\<open>writer_start\<close>, each made only while \<^verbatim>\<open>ret\<close> is still 0.\<close>
definition start_queue :: "env \<Rightarrow> int \<times> world \<Rightarrow> int \<times> world" where
  "start_queue e rw =
     (case rw of (ret, w) \<Rightarrow>
        if ret = 0
        then (let w1 = xQueueCreate e w in (if queue w1 = None then 182 else ret, w1))
        else (ret, w))"

definition start_mutex :: "env \<Rightarrow> int \<times> world \<Rightarrow> int \<times> world" where
  "start_mutex e rw =
     (case rw of (ret, w) \<Rightarrow>
        if ret = 0
        then (let w1 = xSemaphoreCreateMutex e w in (if mutex w1 = None then 187 else ret, w1))
        else (ret, w))"

definition start_events :: "env \<Rightarrow> int \<times> world \<Rightarrow> int \<times> world" where
  "start_events e rw =
     (case rw of (ret, w) \<Rightarrow>
        if ret = 0
        then (let w1 = xEventGroupCreate e w in (if events w1 = None then 192 else ret, w1))
        else (ret, w))"

definition start_task :: "env \<Rightarrow> string option \<Rightarrow> int \<times> world \<Rightarrow> int \<times> world" where
  "start_task e path rw =
     (case rw of (ret, w) \<Rightarrow>
        if ret = 0
        then (case xTaskCreateUniversal e (the path) w of
                (ok, w1) \<Rightarrow> (if ok then ret else 204, w1))
        else (ret, w))"

text \<open>
  \<^verbatim>\<open>writer_start(path)\<close>; a \<^verbatim>\<open>NULL\<close> path is \<open>None\<close>.  \<open>start_ret\<close> is the local \<^verbatim>\<open>ret\<close>
  when the function reaches its last statement, which is \<^verbatim>\<open>return 0\<close>.  (\<open>the path\<close> in
  \<open>start_task\<close> is evaluated only when \<open>ret\<close> is 0, so the path is not \<open>None\<close>.)
\<close>
definition start_body :: "env \<Rightarrow> string option \<Rightarrow> world \<Rightarrow> int \<times> world" where
  "start_body e path w =
     (let ret = (if path = None then 170 else 0);
          ret = (if state w \<noteq> 0 then 175 else ret);
          (ret, w1) = start_task e path (start_events e (start_mutex e (start_queue e (ret, w))));
          w2 = (if ret = 0 then w1\<lparr>state := 1\<rparr> else w1);
          w3 = (if ret \<noteq> 0 then start_cleanup w2 else w2)
      in (ret, w3))"

definition start_ret :: "env \<Rightarrow> string option \<Rightarrow> world \<Rightarrow> int" where
  "start_ret e path w = fst (start_body e path w)"

definition writer_start :: "env \<Rightarrow> string option \<Rightarrow> world \<Rightarrow> int \<times> world" where
  "writer_start e path w = (0, snd (start_body e path w))"

subsection \<open>writer_push\<close>

text \<open>
  The three overloads.  The caller's \<^verbatim>\<open>bool* dst\<close> is \<open>None\<close> for a \<^verbatim>\<open>NULL\<close> pointer and
  \<open>Some v\<close> for a pointer to a flag holding \<open>v\<close>; the result carries the flag after the
  call.  \<^verbatim>\<open>xSemaphoreTake\<close> and \<^verbatim>\<open>xSemaphoreGive\<close> change nothing the module can see.
\<close>

text \<open>\<^verbatim>\<open>for (i = 0; s[i] != '\0'; i++)\<close> on the bytes found at \<open>s\<close>; the end of the list
  stands for the terminating NUL.\<close>
fun push_str_loop :: "env \<Rightarrow> byte list \<Rightarrow> bool \<Rightarrow> world \<Rightarrow> int \<times> bool \<times> world" where
  "push_str_loop e [] wrote w = (0, wrote, w)"
| "push_str_loop e (c # cs) wrote w =
     (if c = 0 then (0, wrote, w)
      else (case push_byte e c wrote w of
              (err, wrote1, w1) \<Rightarrow>
                if err \<noteq> 0 then (269, wrote1, w1) else push_str_loop e cs wrote1 w1))"

definition writer_push_str :: "env \<Rightarrow> byte list \<Rightarrow> bool option \<Rightarrow> world \<Rightarrow> int \<times> bool option \<times> world" where
  "writer_push_str e s dst w =
     (let ret = (if sem_take e then 0 else 252);
          ret = (if ret = 0 \<and> state w \<noteq> 1 then 259 else ret);
          (ret, wrote, w1) = (if ret = 0 then push_str_loop e s False w else (ret, False, w));
          dst1 = (if ret = 0 \<and> dst \<noteq> None then Some wrote else dst)
      in (ret, dst1, w1))"

text \<open>\<^verbatim>\<open>for (i = 0, p = src; i < size; i++, p++)\<close> on the \<open>size\<close> bytes at \<open>src\<close>
  (\<open>size\<close> below \<open>2^31\<close>, the range of \<^verbatim>\<open>int i\<close>).\<close>
fun push_buf_loop :: "env \<Rightarrow> byte list \<Rightarrow> bool \<Rightarrow> world \<Rightarrow> int \<times> bool \<times> world" where
  "push_buf_loop e [] wrote w = (0, wrote, w)"
| "push_buf_loop e (c # cs) wrote w =
     (case push_byte e c wrote w of
        (err, wrote1, w1) \<Rightarrow>
          if err \<noteq> 0 then (330, wrote1, w1) else push_buf_loop e cs wrote1 w1)"

definition writer_push_buf :: "env \<Rightarrow> byte list \<Rightarrow> nat \<Rightarrow> bool option \<Rightarrow> world \<Rightarrow> int \<times> bool option \<times> world" where
  "writer_push_buf e src sz dst w =
     (let ret = (if sem_take e then 0 else 313);
          ret = (if ret = 0 \<and> state w \<noteq> 1 then 320 else ret);
          (ret, wrote, w1) = (if ret = 0 then push_buf_loop e (take sz src) False w
                              else (ret, False, w));
          dst1 = (if ret = 0 \<and> dst \<noteq> None then Some wrote else dst)
      in (ret, dst1, w1))"

definition writer_push_u8 :: "env \<Rightarrow> byte \<Rightarrow> bool option \<Rightarrow> world \<Rightarrow> int \<times> bool option \<times> world" where
  "writer_push_u8 e b dst w =
     (let ret = (if sem_take e then 0 else 372);
          ret = (if ret = 0 \<and> state w \<noteq> 1 then 379 else ret);
          (ret, wrote, w1) = (if ret = 0
                              then (case push_byte e b False w of
                                      (err, wrote1, w1) \<Rightarrow> (if err \<noteq> 0 then 387 else ret, wrote1, w1))
                              else (ret, False, w));
          dst1 = (if ret = 0 \<and> dst \<noteq> None then Some wrote else dst)
      in (ret, dst1, w1))"

subsection \<open>writer_finish\<close>

text \<open>Up to and including the \<^verbatim>\<open>xQueueSend\<close> of the \<^verbatim>\<open>OP_EXIT\<close> command.  The state check
  stands under \<^verbatim>\<open>if (ret)\<close>.\<close>
definition finish_send :: "env \<Rightarrow> world \<Rightarrow> int \<times> world" where
  "finish_send e w =
     (let ret = (if sem_take e then 0 else 424);
          ret = (if ret \<noteq> 0 then (if state w \<noteq> 1 then 431 else ret) else ret)
      in if ret = 0
         then (let cmd = \<lparr>cmd_op = OP_EXIT, cmd_data = cur_buff w, cmd_size = used w\<rparr>;
                   (ok, w1) = xQueueSend e cmd w
               in (if ok then 0 else 444, w1))
         else (ret, w))"

text \<open>From \<^verbatim>\<open>if (!ret) state = 2\<close> to the return.\<close>
definition finish_release :: "int \<Rightarrow> world \<Rightarrow> int \<times> world" where
  "finish_release ret w =
     (let w1 = (if ret = 0 then w\<lparr>state := 2\<rparr> else w)
      in if ret = 0
         then (let w2 = (case queue w1 of None \<Rightarrow> w1 | Some h \<Rightarrow> vQueueDelete h w1);
                   w3 = (case mutex w2 of None \<Rightarrow> w2 | Some h \<Rightarrow> vSemaphoreDelete h w2);
                   w4 = (case events w3 of None \<Rightarrow> w3 | Some h \<Rightarrow> vEventGroupDelete h w3)
               in (ret, w4\<lparr>queue := None, mutex := None, events := None, task := None,
                           cur_buff := buff_plane1, used := 0, state := 0\<rparr>))
         else (ret, w1))"

text \<open>\<^verbatim>\<open>writer_finish()\<close>; \<open>None\<close> when the wait for the task never ends.\<close>
definition writer_finish :: "env \<Rightarrow> world \<Rightarrow> (int \<times> world) option" where
  "writer_finish e w =
     (case finish_send e w of
        (ret, w1) \<Rightarrow>
          if ret = 0
          then (case xEventGroupWaitBits e w1 of
                  None \<Rightarrow> None
                | Some w2 \<Rightarrow> Some (finish_release ret w2))
          else Some (finish_release ret w1))"

subsection \<open>Sessions: the producer and the task interleaved\<close>

text \<open>
  The producer and the writer task run side by side.  A schedule is a list of events: a
  call \<^verbatim>\<open>writer_push(b, NULL)\<close> of the producer, or one step of the task (the open, the
  receipt of a command, or the handling of the received command, at which the buffer is
  read).  A push of several bytes appends them one after the other, and the task may step
  between any two of them, so schedules of single bytes cover every batching.  A schedule
  that asks the task to move when it cannot has no run.  The bound of the queue is not
  enforced: a run in which the producer would have waited for room is still a run here.
\<close>
datatype event = Push byte | Task

definition exec :: "env \<Rightarrow> event \<Rightarrow> world \<Rightarrow> world option" where
  "exec e ev w =
     (case ev of
        Push b \<Rightarrow> Some (snd (snd (writer_push_u8 e b None w)))
      | Task \<Rightarrow> task_step e w)"

fun run :: "env \<Rightarrow> event list \<Rightarrow> world \<Rightarrow> world option" where
  "run e [] w = Some w"
| "run e (ev # evs) w = (case exec e ev w of None \<Rightarrow> None | Some w1 \<Rightarrow> run e evs w1)"

text \<open>The bytes pushed by a schedule, in order.\<close>
fun pushed :: "event list \<Rightarrow> byte list" where
  "pushed [] = []"
| "pushed (Push b # evs) = b # pushed evs"
| "pushed (Task # evs) = pushed evs"

text \<open>An event touches a buffer in flight when it appends to the active buffer while a
  command that refers to that buffer is still in the queue, or has been received by the
  task and not yet handled.\<close>
definition in_flight :: "event \<Rightarrow> world \<Rightarrow> bool" where
  "in_flight ev w =
     (case ev of
        Push b \<Rightarrow> cur_buff w \<in> cmd_data ` set (chan w)
                  \<or> (t_pc w = At_write \<and> cmd_data (t_cmd w) = cur_buff w)
      | Task \<Rightarrow> False)"

text \<open>No event of the schedule touches a buffer in flight.\<close>
fun undisturbed :: "env \<Rightarrow> event list \<Rightarrow> world \<Rightarrow> bool" where
  "undisturbed e [] w = True"
| "undisturbed e (ev # evs) w =
     (if in_flight ev w then False
      else (case exec e ev w of None \<Rightarrow> True | Some w1 \<Rightarrow> undisturbed e evs w1))"

text \<open>A session that has just been started: \<^verbatim>\<open>state\<close> is 1, nothing is buffered or
  queued, the task stands before its open of \<open>p\<close>, the completion bit is clear.\<close>
definition session_open :: "string \<Rightarrow> world \<Rightarrow> bool" where
  "session_open p w =
     (state w = 1 \<and> used w = 0 \<and> chan w = [] \<and> t_pc w = At_open \<and> t_path w = p
      \<and> \<not> ev_complete w)"

text \<open>The bytes of the command the task has received and not yet handled.\<close>
definition held :: "world \<Rightarrow> byte list" where
  "held w = (if t_pc w = At_write then payload w (t_cmd w) else [])"

text \<open>The bytes on their way to the file: those of the command the task holds, those of
  the queued commands, then those in the active buffer.\<close>
definition in_transit :: "world \<Rightarrow> byte list" where
  "in_transit w =
     held w @ concat (map (payload w) (chan w)) @ map (mem w (cur_buff w)) [0..<used w]"

text \<open>What the task has written to the file at \<open>p\<close> so far: nothing before the open.\<close>
definition written :: "string \<Rightarrow> world \<Rightarrow> byte list" where
  "written p w =
     (if t_pc w = At_open then []
      else (case card w p of None \<Rightarrow> [] | Some f \<Rightarrow> f))"

text \<open>A running session in which no error has occurred and no exit was sent: the file,
  the queue and the active buffer together hold the bytes \<open>bs\<close>.\<close>
definition session_holds :: "string \<Rightarrow> byte list \<Rightarrow> world \<Rightarrow> bool" where
  "session_holds p bs w =
     (state w = 1 \<and> t_path w = p \<and> \<not> ev_complete w
      \<and> list_all (\<lambda>c. cmd_op c = OP_FLUSH) (chan w)
      \<and> (t_pc w = At_open
           \<or> (t_pc w = At_receive \<and> \<not> t_error w \<and> card w p \<noteq> None)
           \<or> (t_pc w = At_write \<and> \<not> t_error w \<and> card w p \<noteq> None
               \<and> cmd_op (t_cmd w) = OP_FLUSH))
      \<and> written p w @ in_transit w = bs)"

subsection \<open>The buffer pair\<close>

text \<open>The active buffer is one of the two arrays and the cursor is inside it.\<close>
definition buffers_ok :: "world \<Rightarrow> bool" where
  "buffers_ok w =
     ((cur_buff w = buff_plane1 \<or> cur_buff w = buff_plane2) \<and> used w < BUFF_SIZE)"

subsection \<open>The push of the specification\<close>

text \<open>
  The specification's words, to be compared with the three overloads: an append reports
  whether it succeeded and whether a rotation occurred; a push of several bytes is
  repeated single-byte append, the edge accumulates with logical OR and the loop stops at
  the first append failure; a push is legal only from Running, with the lock held, and
  reports the edge.
\<close>
definition spec_append :: "env \<Rightarrow> byte \<Rightarrow> world \<Rightarrow> bool \<times> bool \<times> world" where
  "spec_append e b w = (case push_byte e b False w of (ret, rot, w1) \<Rightarrow> (ret = 0, rot, w1))"

fun spec_append_all :: "env \<Rightarrow> byte list \<Rightarrow> world \<Rightarrow> bool \<times> bool \<times> world" where
  "spec_append_all e [] w = (True, False, w)"
| "spec_append_all e (b # bs) w =
     (case spec_append e b w of
        (ok, rot, w1) \<Rightarrow>
          if ok
          then (case spec_append_all e bs w1 of (ok2, rot2, w2) \<Rightarrow> (ok2, rot \<or> rot2, w2))
          else (False, rot, w1))"

definition spec_push :: "env \<Rightarrow> byte list \<Rightarrow> bool option \<Rightarrow> world \<Rightarrow> bool \<times> bool option \<times> world" where
  "spec_push e bs dst w =
     (if sem_take e \<and> state w = 1
      then (case spec_append_all e bs w of
              (ok, edge, w1) \<Rightarrow> (ok, if ok \<and> dst \<noteq> None then Some edge else dst, w1))
      else (False, dst, w))"

text \<open>What a caller sees of a push: whether it succeeded, the flag, the state.\<close>
definition outcome :: "int \<times> bool option \<times> world \<Rightarrow> bool \<times> bool option \<times> world" where
  "outcome r = (case r of (ret, dst, w) \<Rightarrow> (ret = 0, dst, w))"

subsection \<open>Concrete states\<close>

text \<open>The static initialisers of writer.cpp, no kernel object, no task (the value of its
  \<^verbatim>\<open>cmd\<close> is never read before the first receipt), an empty card.\<close>
definition boot :: world where
  "boot = \<lparr>state = 0, mutex = None, queue = None, task = None, events = None,
            mem = (\<lambda>a i. 0), cur_buff = buff_plane1, used = 0,
            live = {}, chan = [], n_sends = 0, ev_complete = False,
            t_pc = No_task, t_path = [], t_error = False,
            t_cmd = \<lparr>cmd_op = OP_FLUSH, cmd_data = 0, cmd_size = 0\<rparr>,
            card = Map.empty, sd_log = []\<rparr>"

text \<open>An environment in which every call succeeds.\<close>
definition env_ok :: env where
  "env_ok = \<lparr>queue_create = Some 1, mutex_create = Some 2, events_create = Some 3,
              task_create = Some 4, sem_take = True, queue_send = (\<lambda>k. True),
              sd_open = True, sd_write = (\<lambda>k n. n), sd_sync = (\<lambda>k. True)\<rparr>"

text \<open>The state after \<^verbatim>\<open>writer_start("log.csv")\<close> succeeded on the initial state.\<close>
definition running :: world where
  "running = snd (writer_start env_ok (Some ''log.csv'') boot)"

text \<open>Environments in which one call fails: the take of the mutex, every send to the
  queue, the open of the file.\<close>
definition env_no_take :: env where
  "env_no_take = env_ok\<lparr>sem_take := False\<rparr>"

definition env_no_send :: env where
  "env_no_send = env_ok\<lparr>queue_send := (\<lambda>k. False)\<rparr>"

definition env_no_open :: env where
  "env_no_open = env_ok\<lparr>sd_open := False\<rparr>"

text \<open>A buffer of 1s, a buffer of 2s, and a 3.\<close>
definition burst :: "byte list" where
  "burst = replicate BUFF_SIZE 1 @ replicate BUFF_SIZE 2 @ [3]"

text \<open>The producer fills the first buffer, the task opens the file and receives the
  command for that buffer, and before the task handles it the producer fills the second
  buffer and appends a 3.\<close>
definition handover :: "event list" where
  "handover = map Push (replicate BUFF_SIZE 1) @ [Task, Task]
              @ map Push (replicate BUFF_SIZE 2) @ [Push 3]"

section \<open>Lemmas\<close>

subsection \<open>writer_start, stage by stage\<close>

lemma start_queue_keeps:
  "cur_buff (snd (start_queue e rw)) = cur_buff (snd rw)"
  "used (snd (start_queue e rw)) = used (snd rw)"
  "state (snd (start_queue e rw)) = state (snd rw)"
  by (simp_all add: start_queue_def xQueueCreate_def Let_def case_prod_beta split: option.splits)

lemma start_mutex_keeps:
  "cur_buff (snd (start_mutex e rw)) = cur_buff (snd rw)"
  "used (snd (start_mutex e rw)) = used (snd rw)"
  "state (snd (start_mutex e rw)) = state (snd rw)"
  by (simp_all add: start_mutex_def xSemaphoreCreateMutex_def Let_def case_prod_beta
      split: option.splits)

lemma start_events_keeps:
  "cur_buff (snd (start_events e rw)) = cur_buff (snd rw)"
  "used (snd (start_events e rw)) = used (snd rw)"
  "state (snd (start_events e rw)) = state (snd rw)"
  by (simp_all add: start_events_def xEventGroupCreate_def Let_def case_prod_beta
      split: option.splits)

lemma start_task_keeps:
  "cur_buff (snd (start_task e p rw)) = cur_buff (snd rw)"
  "used (snd (start_task e p rw)) = used (snd rw)"
  "state (snd (start_task e p rw)) = state (snd rw)"
  by (simp_all add: start_task_def xTaskCreateUniversal_def Let_def case_prod_beta
      split: option.splits)

lemma start_cleanup_keeps:
  "cur_buff (start_cleanup w) = cur_buff w"
  "used (start_cleanup w) = used w"
  "state (start_cleanup w) = state w"
  by (simp_all add: start_cleanup_def vQueueDelete_def vSemaphoreDelete_def
      vEventGroupDelete_def vTaskDelete_def Let_def split: option.splits)

lemmas start_keeps =
  start_queue_keeps start_mutex_keeps start_events_keeps start_task_keeps start_cleanup_keeps

text \<open>Once \<^verbatim>\<open>ret\<close> is set, no allocation is attempted.\<close>

lemma start_stage_skip:
  "fst rw \<noteq> 0 \<Longrightarrow> start_queue e rw = rw"
  "fst rw \<noteq> 0 \<Longrightarrow> start_mutex e rw = rw"
  "fst rw \<noteq> 0 \<Longrightarrow> start_events e rw = rw"
  "fst rw \<noteq> 0 \<Longrightarrow> start_task e p rw = rw"
  by (simp_all add: start_queue_def start_mutex_def start_events_def start_task_def
      case_prod_beta)

lemma start_body_state_check: "state w \<noteq> 0 \<Longrightarrow> start_body e p w = (175, start_cleanup w)"
  by (simp add: start_body_def start_stage_skip)

lemma start_body_null_path:
  "start_body e None w = (if state w \<noteq> 0 then 175 else 170, start_cleanup w)"
  by (simp add: start_body_def start_stage_skip)

lemma start_buffers:
  "cur_buff (snd (writer_start e p w)) = cur_buff w
   \<and> used (snd (writer_start e p w)) = used w"
  by (simp add: writer_start_def start_body_def Let_def case_prod_beta start_keeps)

lemma start_state:
  "state (snd (writer_start e p w)) = state w
   \<or> (state w = 0 \<and> state (snd (writer_start e p w)) = 1)"
proof (cases "state w = 0")
  case True
  then show ?thesis
    by (simp add: writer_start_def start_body_def Let_def case_prod_beta start_keeps)
next
  case False
  then show ?thesis
    by (simp add: writer_start_def start_body_state_check start_keeps)
qed

lemmas start_defs =
  writer_start_def start_body_def start_ret_def start_queue_def start_mutex_def
  start_events_def start_task_def xQueueCreate_def xSemaphoreCreateMutex_def
  xEventGroupCreate_def xTaskCreateUniversal_def start_cleanup_def vQueueDelete_def
  vSemaphoreDelete_def vEventGroupDelete_def vTaskDelete_def

subsection \<open>The task leaves the static variables alone\<close>

lemmas task_defs =
  task_command_def task_write_def task_exit_def task_open_def task_receive_def

lemma task_command_statics:
  "state (task_command e c w) = state w"
  "mutex (task_command e c w) = mutex w"
  "queue (task_command e c w) = queue w"
  "task (task_command e c w) = task w"
  "events (task_command e c w) = events w"
  "mem (task_command e c w) = mem w"
  "cur_buff (task_command e c w) = cur_buff w"
  "used (task_command e c w) = used w"
  "n_sends (task_command e c w) = n_sends w"
  "chan (task_command e c w) = chan w"
  "t_path (task_command e c w) = t_path w"
  by (simp_all add: task_defs Let_def)

lemma task_command_live: "live (task_command e c w) \<subseteq> live w"
  by (auto simp add: task_defs Let_def)

lemma task_loop_statics:
  "state (task_loop e cs w) = state w \<and> mutex (task_loop e cs w) = mutex w
   \<and> queue (task_loop e cs w) = queue w \<and> task (task_loop e cs w) = task w
   \<and> events (task_loop e cs w) = events w \<and> mem (task_loop e cs w) = mem w
   \<and> cur_buff (task_loop e cs w) = cur_buff w \<and> used (task_loop e cs w) = used w
   \<and> n_sends (task_loop e cs w) = n_sends w \<and> t_path (task_loop e cs w) = t_path w"
  by (induction cs arbitrary: w)
     (simp_all add: Let_def task_command_statics task_receive_def)

lemma task_loop_live: "live (task_loop e cs w) \<subseteq> live w"
proof (induction cs arbitrary: w)
  case Nil
  show ?case by simp
next
  case (Cons c cs)
  have a: "live (task_command e c (task_receive c cs w)) \<subseteq> live w"
    using task_command_live[of e c "task_receive c cs w"] by (simp add: task_receive_def)
  show ?case
    using a Cons.IH[of "task_command e c (task_receive c cs w)"] by (auto simp: Let_def)
qed

lemma task_run_statics:
  "state (task_run e w) = state w \<and> mutex (task_run e w) = mutex w
   \<and> queue (task_run e w) = queue w \<and> task (task_run e w) = task w
   \<and> events (task_run e w) = events w \<and> mem (task_run e w) = mem w
   \<and> cur_buff (task_run e w) = cur_buff w \<and> used (task_run e w) = used w
   \<and> n_sends (task_run e w) = n_sends w \<and> t_path (task_run e w) = t_path w"
  by (cases "t_pc w")
     (simp_all add: task_run_def Let_def task_loop_statics task_open_def task_command_statics)

lemma task_run_live: "live (task_run e w) \<subseteq> live w"
proof (cases "t_pc w")
  case At_open
  have "live (task_loop e (chan (task_open e w)) (task_open e w)) \<subseteq> live (task_open e w)"
    by (rule task_loop_live)
  then show ?thesis
    using At_open by (simp add: task_run_def Let_def task_open_def split: if_splits)
next
  case At_write
  have "live (task_loop e (chan (task_command e (t_cmd w) w)) (task_command e (t_cmd w) w))
    \<subseteq> live (task_command e (t_cmd w) w)"
    by (rule task_loop_live)
  then show ?thesis
    using At_write task_command_live[of e "t_cmd w" w] by (auto simp add: task_run_def Let_def)
qed (simp_all add: task_run_def task_loop_live)

lemma wait_statics:
  assumes "xEventGroupWaitBits e w = Some w'"
  shows "state w' = state w \<and> mutex w' = mutex w \<and> queue w' = queue w \<and> task w' = task w
    \<and> events w' = events w \<and> mem w' = mem w \<and> cur_buff w' = cur_buff w \<and> used w' = used w
    \<and> n_sends w' = n_sends w \<and> live w' \<subseteq> live w"
  using assms task_run_statics[of e w] task_run_live[of e w]
  by (auto simp add: xEventGroupWaitBits_def Let_def split: if_splits)

lemma task_step_buffers:
  "task_step e w = Some w' \<Longrightarrow> cur_buff w' = cur_buff w \<and> used w' = used w"
  by (auto simp add: task_step_def task_defs Let_def
      split: task_pc.splits list.splits if_splits)

subsection \<open>writer_finish\<close>

lemma finish_send_statics:
  "state (snd (finish_send e w)) = state w \<and> mutex (snd (finish_send e w)) = mutex w
   \<and> queue (snd (finish_send e w)) = queue w \<and> events (snd (finish_send e w)) = events w
   \<and> live (snd (finish_send e w)) = live w \<and> cur_buff (snd (finish_send e w)) = cur_buff w
   \<and> used (snd (finish_send e w)) = used w"
  by (simp add: finish_send_def xQueueSend_def Let_def)

lemma finish_release_ok:
  "finish_release 0 w = (r, w') \<Longrightarrow>
     r = 0 \<and> state w' = 0 \<and> queue w' = None \<and> mutex w' = None \<and> events w' = None
     \<and> task w' = None \<and> cur_buff w' = buff_plane1 \<and> used w' = 0
     \<and> live w' = live w - (set_option (queue w) \<union> set_option (mutex w) \<union> set_option (events w))"
  by (auto simp add: finish_release_def Let_def vQueueDelete_def vSemaphoreDelete_def
      vEventGroupDelete_def split: option.splits)

lemma finish_release_buffers_ok: "buffers_ok w \<Longrightarrow> buffers_ok (snd (finish_release r w))"
  by (simp add: finish_release_def buffers_ok_def Let_def BUFF_SIZE_def)

subsection \<open>push_byte and the push loops\<close>

text \<open>The flag handed to \<open>push_byte\<close> is only ever raised.\<close>

lemma push_byte_flag:
  "push_byte e b dst w =
     (fst (push_byte e b False w), dst \<or> fst (snd (push_byte e b False w)),
      snd (snd (push_byte e b False w)))"
  by (simp add: push_byte_def Let_def split: prod.splits)

lemma push_byte_buffers_ok: "buffers_ok w \<Longrightarrow> buffers_ok (snd (snd (push_byte e b dst w)))"
  by (auto simp add: push_byte_def buffers_ok_def Let_def xQueueSend_def BUFF_SIZE_def
      split: prod.splits)

lemma push_buf_loop_buffers_ok:
  "buffers_ok w \<Longrightarrow> buffers_ok (snd (snd (push_buf_loop e bs wr w)))"
proof (induction bs arbitrary: wr w)
  case Nil
  then show ?case by simp
next
  case (Cons c cs)
  obtain r d w1 where pb: "push_byte e c wr w = (r, d, w1)"
    by (cases "push_byte e c wr w")
  have "buffers_ok w1"
    using push_byte_buffers_ok[OF Cons.prems, of e c wr] pb by simp
  then show ?case
    using Cons.IH[of w1 d] pb by simp
qed

lemma push_str_loop_buffers_ok:
  "buffers_ok w \<Longrightarrow> buffers_ok (snd (snd (push_str_loop e bs wr w)))"
proof (induction bs arbitrary: wr w)
  case Nil
  then show ?case by simp
next
  case (Cons c cs)
  obtain r d w1 where pb: "push_byte e c wr w = (r, d, w1)"
    by (cases "push_byte e c wr w")
  have "buffers_ok w1"
    using push_byte_buffers_ok[OF Cons.prems, of e c wr] pb by simp
  then show ?case
    using Cons.IH[of w1 d] pb Cons.prems by simp
qed

text \<open>The three overloads with their local \<^verbatim>\<open>ret\<close> resolved.\<close>

lemma writer_push_buf_unfold:
  "writer_push_buf e src sz dst w =
     (if sem_take e
      then if state w = 1
           then (case push_buf_loop e (take sz src) False w of
                   (r, wr, w1) \<Rightarrow> (r, if r = 0 \<and> dst \<noteq> None then Some wr else dst, w1))
           else (320, dst, w)
      else (313, dst, w))"
  by (simp add: writer_push_buf_def Let_def split: prod.splits)

lemma writer_push_str_unfold:
  "writer_push_str e s dst w =
     (if sem_take e
      then if state w = 1
           then (case push_str_loop e s False w of
                   (r, wr, w1) \<Rightarrow> (r, if r = 0 \<and> dst \<noteq> None then Some wr else dst, w1))
           else (259, dst, w)
      else (252, dst, w))"
  by (simp add: writer_push_str_def Let_def split: prod.splits)

lemma writer_push_u8_unfold:
  "writer_push_u8 e b dst w =
     (if sem_take e
      then if state w = 1
           then (case push_byte e b False w of
                   (err, wr, w1) \<Rightarrow>
                     (if err \<noteq> 0 then 387 else 0,
                      if err = 0 \<and> dst \<noteq> None then Some wr else dst, w1))
           else (379, dst, w)
      else (372, dst, w))"
  by (simp add: writer_push_u8_def Let_def split: prod.splits)

lemma writer_push_buf_buffers_ok:
  "buffers_ok w \<Longrightarrow> buffers_ok (snd (snd (writer_push_buf e src sz dst w)))"
  using push_buf_loop_buffers_ok[of w e "take sz src" False]
  by (simp add: writer_push_buf_unfold case_prod_beta)

lemma writer_push_str_buffers_ok:
  "buffers_ok w \<Longrightarrow> buffers_ok (snd (snd (writer_push_str e s dst w)))"
  using push_str_loop_buffers_ok[of w e s False]
  by (simp add: writer_push_str_unfold case_prod_beta)

lemma writer_push_u8_buffers_ok:
  "buffers_ok w \<Longrightarrow> buffers_ok (snd (snd (writer_push_u8 e b dst w)))"
  using push_byte_buffers_ok[of w e b False]
  by (simp add: writer_push_u8_unfold case_prod_beta)

text \<open>The loops of the code against the repeated append of the specification.\<close>

lemma push_buf_loop_spec:
  "push_buf_loop e bs wr w =
     (case spec_append_all e bs w of
        (ok, edge, w1) \<Rightarrow> (if ok then 0 else 330, wr \<or> edge, w1))"
proof (induction bs arbitrary: wr w)
  case Nil
  show ?case by simp
next
  case (Cons c cs)
  obtain r d w1 where pb: "push_byte e c False w = (r, d, w1)"
    by (cases "push_byte e c False w")
  have pb': "push_byte e c wr w = (r, wr \<or> d, w1)"
    using push_byte_flag[of e c wr w] pb by simp
  show ?case
    using pb pb' Cons.IH[of "wr \<or> d" w1]
    by (auto simp add: spec_append_def split: prod.splits)
qed

lemma push_str_loop_spec:
  "push_str_loop e s wr w =
     (case spec_append_all e (takeWhile (\<lambda>c. c \<noteq> 0) s) w of
        (ok, edge, w1) \<Rightarrow> (if ok then 0 else 269, wr \<or> edge, w1))"
proof (induction s arbitrary: wr w)
  case Nil
  show ?case by simp
next
  case (Cons c cs)
  obtain r d w1 where pb: "push_byte e c False w = (r, d, w1)"
    by (cases "push_byte e c False w")
  have pb': "push_byte e c wr w = (r, wr \<or> d, w1)"
    using push_byte_flag[of e c wr w] pb by simp
  show ?case
    using pb pb' Cons.IH[of "wr \<or> d" w1]
    by (auto simp add: spec_append_def split: prod.splits)
qed

subsection \<open>The concrete states\<close>

lemma running_fields:
  "state running = 1 \<and> queue running = Some 1 \<and> mutex running = Some 2
   \<and> events running = Some 3 \<and> task running = Some 4 \<and> cur_buff running = buff_plane1
   \<and> used running = 0 \<and> chan running = [] \<and> n_sends running = 0
   \<and> \<not> ev_complete running \<and> t_pc running = At_open \<and> t_path running = ''log.csv''
   \<and> card running = Map.empty \<and> sd_log running = []"
  by (simp add: running_def start_defs boot_def env_ok_def)

lemma running_live: "live running = {1, 2, 3, 4}"
  by (auto simp add: running_def start_defs boot_def env_ok_def)

text \<open>The session finished right after its start: the task opens the file, receives the
  \<^verbatim>\<open>OP_EXIT\<close> command of size 0, closes and signals.\<close>

lemma finish_running:
  "map_option fst (writer_finish env_ok running) = Some 0
   \<and> map_option (state \<circ> snd) (writer_finish env_ok running) = Some 0
   \<and> map_option (\<lambda>r. card (snd r) ''log.csv'') (writer_finish env_ok running) = Some (Some [])"
  by (simp add: writer_finish_def finish_send_def xQueueSend_def xEventGroupWaitBits_def
      task_run_def task_defs finish_release_def vQueueDelete_def vSemaphoreDelete_def
      vEventGroupDelete_def env_ok_def running_fields Let_def)

subsection \<open>Counting rotations\<close>

lemma BUFF_SIZE_pos: "0 < BUFF_SIZE"
  by (simp add: BUFF_SIZE_def)

text \<open>One append when every send succeeds: the rotation happens exactly when the byte
  fills the buffer, and then one \<^verbatim>\<open>OP_FLUSH\<close> command of a full buffer is queued.\<close>

lemma spec_append_sends_ok:
  assumes "\<forall>k. queue_send e k"
  shows "spec_append e b w =
     (True, used w + 1 = BUFF_SIZE,
      if used w + 1 = BUFF_SIZE
      then w\<lparr>mem := (mem w)(cur_buff w := (mem w (cur_buff w))(used w := b)),
             used := 0,
             chan := chan w @ [\<lparr>cmd_op = OP_FLUSH, cmd_data = cur_buff w, cmd_size = BUFF_SIZE\<rparr>],
             n_sends := n_sends w + 1,
             cur_buff := (if cur_buff w = buff_plane1 then buff_plane2 else buff_plane1)\<rparr>
      else w\<lparr>mem := (mem w)(cur_buff w := (mem w (cur_buff w))(used w := b)),
             used := used w + 1\<rparr>)"
  using assms by (simp add: spec_append_def push_byte_def xQueueSend_def Let_def)

lemma spec_append_all_count:
  assumes "\<forall>k. queue_send e k" and "used w < BUFF_SIZE"
  shows "fst (spec_append_all e bs w)
    \<and> fst (snd (spec_append_all e bs w)) = (BUFF_SIZE \<le> used w + length bs)
    \<and> used (snd (snd (spec_append_all e bs w))) = (used w + length bs) mod BUFF_SIZE
    \<and> n_sends (snd (snd (spec_append_all e bs w)))
         = n_sends w + (used w + length bs) div BUFF_SIZE
    \<and> state (snd (snd (spec_append_all e bs w))) = state w
    \<and> (\<exists>fl. chan (snd (snd (spec_append_all e bs w))) = chan w @ fl
          \<and> length fl = (used w + length bs) div BUFF_SIZE
          \<and> (\<forall>c \<in> set fl. cmd_op c = OP_FLUSH \<and> cmd_size c = BUFF_SIZE))"
  using assms(2)
proof (induction bs arbitrary: w)
  case Nil
  then show ?case by simp
next
  case (Cons b bs)
  define w1 where "w1 = snd (snd (spec_append e b w))"
  have sa: "spec_append e b w = (True, used w + 1 = BUFF_SIZE, w1)"
    using spec_append_sends_ok[OF assms(1), of b w] by (simp add: w1_def)
  show ?case
  proof (cases "used w + 1 = BUFF_SIZE")
    case True
    have w1f: "used w1 = 0 \<and> n_sends w1 = n_sends w + 1 \<and> state w1 = state w
      \<and> chan w1 = chan w @ [\<lparr>cmd_op = OP_FLUSH, cmd_data = cur_buff w, cmd_size = BUFF_SIZE\<rparr>]"
      using True spec_append_sends_ok[OF assms(1), of b w] by (simp add: w1_def)
    have ih: "fst (spec_append_all e bs w1)
      \<and> fst (snd (spec_append_all e bs w1)) = (BUFF_SIZE \<le> used w1 + length bs)
      \<and> used (snd (snd (spec_append_all e bs w1))) = (used w1 + length bs) mod BUFF_SIZE
      \<and> n_sends (snd (snd (spec_append_all e bs w1)))
           = n_sends w1 + (used w1 + length bs) div BUFF_SIZE
      \<and> state (snd (snd (spec_append_all e bs w1))) = state w1
      \<and> (\<exists>fl. chan (snd (snd (spec_append_all e bs w1))) = chan w1 @ fl
            \<and> length fl = (used w1 + length bs) div BUFF_SIZE
            \<and> (\<forall>c \<in> set fl. cmd_op c = OP_FLUSH \<and> cmd_size c = BUFF_SIZE))"
      using Cons.IH[of w1] w1f BUFF_SIZE_pos by simp
    then obtain fl where fl: "chan (snd (snd (spec_append_all e bs w1))) = chan w1 @ fl"
      "length fl = (used w1 + length bs) div BUFF_SIZE"
      "\<forall>c \<in> set fl. cmd_op c = OP_FLUSH \<and> cmd_size c = BUFF_SIZE"
      by blast
    have eq: "used w + length (b # bs) = BUFF_SIZE + length bs"
      using True by simp
    have m: "(used w + length (b # bs)) mod BUFF_SIZE = length bs mod BUFF_SIZE"
      unfolding eq by simp
    have d: "(used w + length (b # bs)) div BUFF_SIZE = 1 + length bs div BUFF_SIZE"
      unfolding eq using BUFF_SIZE_pos div_add_self1[of BUFF_SIZE "length bs"] by simp
    have ch: "\<exists>fl'. chan (snd (snd (spec_append_all e bs w1))) = chan w @ fl'
          \<and> length fl' = (used w + length (b # bs)) div BUFF_SIZE
          \<and> (\<forall>c \<in> set fl'. cmd_op c = OP_FLUSH \<and> cmd_size c = BUFF_SIZE)"
      using fl w1f d
      by (intro exI[of _ "\<lparr>cmd_op = OP_FLUSH, cmd_data = cur_buff w, cmd_size = BUFF_SIZE\<rparr> # fl"])
         simp
    have ge: "BUFF_SIZE \<le> used w + length (b # bs)"
      using eq by simp
    show ?thesis
      using sa ih w1f m d ch ge True by (simp add: case_prod_beta)
  next
    case False
    have w1f: "used w1 = used w + 1 \<and> n_sends w1 = n_sends w \<and> state w1 = state w
      \<and> chan w1 = chan w"
      using False spec_append_sends_ok[OF assms(1), of b w] by (simp add: w1_def)
    have lt: "used w1 < BUFF_SIZE"
      using False Cons.prems w1f by simp
    have ih: "fst (spec_append_all e bs w1)
      \<and> fst (snd (spec_append_all e bs w1)) = (BUFF_SIZE \<le> used w1 + length bs)
      \<and> used (snd (snd (spec_append_all e bs w1))) = (used w1 + length bs) mod BUFF_SIZE
      \<and> n_sends (snd (snd (spec_append_all e bs w1)))
           = n_sends w1 + (used w1 + length bs) div BUFF_SIZE
      \<and> state (snd (snd (spec_append_all e bs w1))) = state w1
      \<and> (\<exists>fl. chan (snd (snd (spec_append_all e bs w1))) = chan w1 @ fl
            \<and> length fl = (used w1 + length bs) div BUFF_SIZE
            \<and> (\<forall>c \<in> set fl. cmd_op c = OP_FLUSH \<and> cmd_size c = BUFF_SIZE))"
      using Cons.IH[OF lt] by simp
    have eq: "used w1 + length bs = used w + length (b # bs)"
      using w1f by simp
    show ?thesis
      using sa ih w1f False unfolding eq by (simp add: case_prod_beta)
  qed
qed

text \<open>A raw-buffer push on a running session when every call into the kernel succeeds.\<close>

lemma writer_push_buf_count:
  assumes "sem_take e" and "\<forall>k. queue_send e k" and "state w = 1" and "used w < BUFF_SIZE"
    and "sz \<le> length src"
  shows "fst (writer_push_buf e src sz (Some v) w) = 0
    \<and> fst (snd (writer_push_buf e src sz (Some v) w)) = Some (BUFF_SIZE \<le> used w + sz)
    \<and> used (snd (snd (writer_push_buf e src sz (Some v) w))) = (used w + sz) mod BUFF_SIZE
    \<and> n_sends (snd (snd (writer_push_buf e src sz (Some v) w)))
         = n_sends w + (used w + sz) div BUFF_SIZE
    \<and> (\<exists>fl. chan (snd (snd (writer_push_buf e src sz (Some v) w))) = chan w @ fl
          \<and> length fl = (used w + sz) div BUFF_SIZE
          \<and> (\<forall>c \<in> set fl. cmd_op c = OP_FLUSH \<and> cmd_size c = BUFF_SIZE))"
proof -
  have len: "length (take sz src) = sz"
    using assms(5) by simp
  show ?thesis
    using spec_append_all_count[OF assms(2) assms(4), of "take sz src"] assms(1) assms(3)
    unfolding len
    by (simp add: writer_push_buf_unfold push_buf_loop_spec case_prod_beta)
qed

lemma buff_arith:
  "(0 + BUFF_SIZE) div BUFF_SIZE = 1" "(0 + BUFF_SIZE) mod BUFF_SIZE = 0"
  "(0 + (BUFF_SIZE - 1)) div BUFF_SIZE = 0" "(0 + (BUFF_SIZE - 1)) mod BUFF_SIZE = BUFF_SIZE - 1"
  "(0 + (2 * BUFF_SIZE + 5)) div BUFF_SIZE = 2" "(0 + (2 * BUFF_SIZE + 5)) mod BUFF_SIZE = 5"
  "BUFF_SIZE \<le> 0 + BUFF_SIZE" "\<not> BUFF_SIZE \<le> 0 + (BUFF_SIZE - 1)"
  "BUFF_SIZE \<le> 0 + (2 * BUFF_SIZE + 5)"
  by (simp_all add: BUFF_SIZE_def)

lemma buff_arith_Suc: "\<not> BUFF_SIZE \<le> BUFF_SIZE - Suc 0"
  by (simp add: BUFF_SIZE_def)

lemma length_one: "length fl = 1 \<Longrightarrow> \<exists>c. fl = [c]"
  by (cases fl) auto

lemma length_two: "length fl = 2 \<Longrightarrow> \<exists>c d. fl = [c, d]"
  by (cases fl; cases "tl fl") auto

lemma push_full_buffer:
  assumes "sem_take e" and "\<forall>k. queue_send e k" and "state w = 1" and "used w = 0"
    and "BUFF_SIZE \<le> length src"
  shows "fst (writer_push_buf e src (BUFF_SIZE) (Some v) w) = 0
      \<and> fst (snd (writer_push_buf e src (BUFF_SIZE) (Some v) w)) = Some True
      \<and> n_sends (snd (snd (writer_push_buf e src (BUFF_SIZE) (Some v) w))) = n_sends w + 1
      \<and> used (snd (snd (writer_push_buf e src (BUFF_SIZE) (Some v) w))) = 0
      \<and> (\<exists>c. chan (snd (snd (writer_push_buf e src (BUFF_SIZE) (Some v) w))) = chan w @ [c]
            \<and> cmd_op c = OP_FLUSH \<and> cmd_size c = BUFF_SIZE)"
proof -
  have u: "used w < BUFF_SIZE"
    using assms(4) by (simp add: BUFF_SIZE_def)
  note cnt = writer_push_buf_count[OF assms(1) assms(2) assms(3) u assms(5), of v]
  then obtain fl where fl:
    "chan (snd (snd (writer_push_buf e src (BUFF_SIZE) (Some v) w))) = chan w @ fl"
    "length fl = (used w + (BUFF_SIZE)) div BUFF_SIZE"
    "\<forall>c \<in> set fl. cmd_op c = OP_FLUSH \<and> cmd_size c = BUFF_SIZE"
    by blast
  have "length fl = 1"
    using fl(2) assms(4) by (simp only: buff_arith)
  then obtain c where c: "fl = [c]"
    using length_one by blast
  have ex: "\<exists>c. chan (snd (snd (writer_push_buf e src (BUFF_SIZE) (Some v) w))) = chan w @ [c]
            \<and> cmd_op c = OP_FLUSH \<and> cmd_size c = BUFF_SIZE"
    using fl(1) fl(3) c by simp
  show ?thesis
    using cnt ex unfolding assms(4) buff_arith by (simp add: buff_arith_Suc)
qed

lemma push_short_of_full:
  assumes "sem_take e" and "\<forall>k. queue_send e k" and "state w = 1" and "used w = 0"
    and "BUFF_SIZE - 1 \<le> length src"
  shows "fst (writer_push_buf e src (BUFF_SIZE - 1) (Some v) w) = 0
      \<and> fst (snd (writer_push_buf e src (BUFF_SIZE - 1) (Some v) w)) = Some False
      \<and> n_sends (snd (snd (writer_push_buf e src (BUFF_SIZE - 1) (Some v) w))) = n_sends w
      \<and> used (snd (snd (writer_push_buf e src (BUFF_SIZE - 1) (Some v) w))) = BUFF_SIZE - 1
      \<and> chan (snd (snd (writer_push_buf e src (BUFF_SIZE - 1) (Some v) w))) = chan w"
proof -
  have u: "used w < BUFF_SIZE"
    using assms(4) by (simp add: BUFF_SIZE_def)
  note cnt = writer_push_buf_count[OF assms(1) assms(2) assms(3) u assms(5), of v]
  then obtain fl where fl:
    "chan (snd (snd (writer_push_buf e src (BUFF_SIZE - 1) (Some v) w))) = chan w @ fl"
    "length fl = (used w + (BUFF_SIZE - 1)) div BUFF_SIZE"
    "\<forall>c \<in> set fl. cmd_op c = OP_FLUSH \<and> cmd_size c = BUFF_SIZE"
    by blast
  have "length fl = 0"
    using fl(2) assms(4) by (simp only: buff_arith)
  then have c: "fl = []"
    by simp
  have ex: "chan (snd (snd (writer_push_buf e src (BUFF_SIZE - 1) (Some v) w))) = chan w"
    using fl(1) fl(3) c by simp
  show ?thesis
    using cnt ex unfolding assms(4) buff_arith by (simp add: buff_arith_Suc)
qed

lemma push_two_buffers_and_five:
  assumes "sem_take e" and "\<forall>k. queue_send e k" and "state w = 1" and "used w = 0"
    and "2 * BUFF_SIZE + 5 \<le> length src"
  shows "fst (writer_push_buf e src (2 * BUFF_SIZE + 5) (Some v) w) = 0
      \<and> fst (snd (writer_push_buf e src (2 * BUFF_SIZE + 5) (Some v) w)) = Some True
      \<and> n_sends (snd (snd (writer_push_buf e src (2 * BUFF_SIZE + 5) (Some v) w))) = n_sends w + 2
      \<and> used (snd (snd (writer_push_buf e src (2 * BUFF_SIZE + 5) (Some v) w))) = 5
      \<and> (\<exists>c d. chan (snd (snd (writer_push_buf e src (2 * BUFF_SIZE + 5) (Some v) w))) = chan w @ [c, d]
            \<and> cmd_op c = OP_FLUSH \<and> cmd_size c = BUFF_SIZE
            \<and> cmd_op d = OP_FLUSH \<and> cmd_size d = BUFF_SIZE)"
proof -
  have u: "used w < BUFF_SIZE"
    using assms(4) by (simp add: BUFF_SIZE_def)
  note cnt = writer_push_buf_count[OF assms(1) assms(2) assms(3) u assms(5), of v]
  then obtain fl where fl:
    "chan (snd (snd (writer_push_buf e src (2 * BUFF_SIZE + 5) (Some v) w))) = chan w @ fl"
    "length fl = (used w + (2 * BUFF_SIZE + 5)) div BUFF_SIZE"
    "\<forall>c \<in> set fl. cmd_op c = OP_FLUSH \<and> cmd_size c = BUFF_SIZE"
    by blast
  have "length fl = 2"
    using fl(2) assms(4) by (simp only: buff_arith)
  then obtain c d where c: "fl = [c, d]"
    using length_two by blast
  have ex: "\<exists>c d. chan (snd (snd (writer_push_buf e src (2 * BUFF_SIZE + 5) (Some v) w))) = chan w @ [c, d]
            \<and> cmd_op c = OP_FLUSH \<and> cmd_size c = BUFF_SIZE
            \<and> cmd_op d = OP_FLUSH \<and> cmd_size d = BUFF_SIZE"
    using fl(1) fl(3) c by simp
  show ?thesis
    using cnt ex unfolding assms(4) buff_arith by (simp add: buff_arith_Suc)
qed

subsection \<open>The producer leaves the task and the card alone\<close>

lemma push_byte_task_fields:
  "t_pc (snd (snd (push_byte e b dst w))) = t_pc w
   \<and> t_error (snd (snd (push_byte e b dst w))) = t_error w
   \<and> t_path (snd (snd (push_byte e b dst w))) = t_path w
   \<and> card (snd (snd (push_byte e b dst w))) = card w
   \<and> sd_log (snd (snd (push_byte e b dst w))) = sd_log w
   \<and> ev_complete (snd (snd (push_byte e b dst w))) = ev_complete w
   \<and> state (snd (snd (push_byte e b dst w))) = state w"
  by (simp add: push_byte_def xQueueSend_def Let_def)

lemma writer_push_u8_task_fields:
  "t_pc (snd (snd (writer_push_u8 e b dst w))) = t_pc w
   \<and> t_error (snd (snd (writer_push_u8 e b dst w))) = t_error w
   \<and> t_path (snd (snd (writer_push_u8 e b dst w))) = t_path w
   \<and> card (snd (snd (writer_push_u8 e b dst w))) = card w
   \<and> sd_log (snd (snd (writer_push_u8 e b dst w))) = sd_log w
   \<and> ev_complete (snd (snd (writer_push_u8 e b dst w))) = ev_complete w
   \<and> state (snd (snd (writer_push_u8 e b dst w))) = state w"
  using push_byte_task_fields[of e b False w]
  by (simp add: writer_push_u8_unfold case_prod_beta)

subsection \<open>The task after an error\<close>

text \<open>With the error recorded, the handling of a received command makes no call on the
  file; an \<^verbatim>\<open>OP_EXIT\<close> command ends the task.\<close>

lemma task_command_in_error:
  "t_error w \<Longrightarrow>
     task_command e c w = (if cmd_op c = OP_EXIT then task_exit w else w\<lparr>t_pc := At_receive\<rparr>)"
  by (simp add: task_command_def)

text \<open>The state of a poisoned session, relative to the log \<open>L\<close> and the card \<open>C\<close> at the
  time of the error.\<close>

lemma exec_in_error:
  assumes "t_error w" and "card w = C"
    and "(sd_log w = L \<and> (t_pc w = At_receive \<or> t_pc w = At_write))
         \<or> (sd_log w = L @ [SD_close] \<and> t_pc w = Task_done \<and> ev_complete w)"
    and "exec e ev w = Some w1"
  shows "t_error w1 \<and> card w1 = C
    \<and> ((sd_log w1 = L \<and> (t_pc w1 = At_receive \<or> t_pc w1 = At_write))
        \<or> (sd_log w1 = L @ [SD_close] \<and> t_pc w1 = Task_done \<and> ev_complete w1))"
proof (cases ev)
  case (Push b)
  then have "w1 = snd (snd (writer_push_u8 e b None w))"
    using assms(4) by (simp add: exec_def)
  then show ?thesis
    using assms(1-3) writer_push_u8_task_fields[of e b None w] by simp
next
  case Task
  then have ts: "task_step e w = Some w1"
    using assms(4) by (simp add: exec_def)
  then have pc: "t_pc w = At_receive \<or> t_pc w = At_write"
    using assms(3) by (cases "t_pc w") (auto simp add: task_step_def)
  then have lg: "sd_log w = L"
    using assms(3) by auto
  show ?thesis
  proof (cases "t_pc w = At_receive")
    case True
    then obtain c rest where ch: "chan w = c # rest"
      using ts by (cases "chan w") (simp_all add: task_step_def)
    have w1: "w1 = task_receive c rest w"
      using ts True ch by (simp add: task_step_def)
    show ?thesis
      using assms(1-2) lg unfolding w1 by (simp add: task_receive_def)
  next
    case False
    then have aw: "t_pc w = At_write"
      using pc by simp
    have w1: "w1 = (if cmd_op (t_cmd w) = OP_EXIT then task_exit w else w\<lparr>t_pc := At_receive\<rparr>)"
      using ts aw assms(1) by (simp add: task_step_def task_command_in_error)
    show ?thesis
      using assms(1-2) lg unfolding w1 by (simp add: task_exit_def)
  qed
qed

lemma run_in_error:
  assumes "run e evs w = Some w'" and "t_error w" and "card w = C"
    and "(sd_log w = L \<and> (t_pc w = At_receive \<or> t_pc w = At_write))
         \<or> (sd_log w = L @ [SD_close] \<and> t_pc w = Task_done \<and> ev_complete w)"
  shows "t_error w' \<and> card w' = C
    \<and> ((sd_log w' = L \<and> (t_pc w' = At_receive \<or> t_pc w' = At_write))
        \<or> (sd_log w' = L @ [SD_close] \<and> t_pc w' = Task_done \<and> ev_complete w'))"
  using assms
proof (induction evs arbitrary: w)
  case Nil
  then show ?case by simp
next
  case (Cons ev evs)
  obtain w1 where ex: "exec e ev w = Some w1" and rn: "run e evs w1 = Some w'"
    using Cons.prems(1) by (cases "exec e ev w") simp_all
  note st = exec_in_error[OF Cons.prems(2) Cons.prems(3) Cons.prems(4) ex]
  show ?case
    using Cons.IH[OF rn] st by blast
qed

text \<open>The open fails on a running session; then a byte is pushed; or the session is
  finished at once.\<close>

lemma poisoned_fields:
  "t_error (task_open env_no_open running) \<and> t_pc (task_open env_no_open running) = At_receive
   \<and> card (task_open env_no_open running) = Map.empty
   \<and> sd_log (task_open env_no_open running) = [SD_open ''log.csv'' False]
   \<and> chan (task_open env_no_open running) = []
   \<and> state (task_open env_no_open running) = 1"
  by (simp add: task_open_def env_no_open_def env_ok_def running_fields)

lemma poisoned_exit_fields:
  "t_error (snd (finish_send env_no_open (task_open env_no_open running)))
   \<and> t_pc (snd (finish_send env_no_open (task_open env_no_open running))) = At_receive
   \<and> sd_log (snd (finish_send env_no_open (task_open env_no_open running)))
       = [SD_open ''log.csv'' False]
   \<and> chan (snd (finish_send env_no_open (task_open env_no_open running)))
       = [\<lparr>cmd_op = OP_EXIT, cmd_data = buff_plane1, cmd_size = 0\<rparr>]"
  by (simp add: finish_send_def xQueueSend_def task_open_def env_no_open_def env_ok_def
      running_fields Let_def)

subsection \<open>What a session holds\<close>

lemma map_upd_upt: "map (f(u := b)) [0..<Suc u] = map f [0..<u] @ [b]"
  by simp

lemma payload_mem: "mem w' = mem w \<Longrightarrow> payload w' = payload w"
  by (rule ext) (simp add: payload_def)

lemma in_transit_same:
  "mem w' = mem w \<Longrightarrow> chan w' = chan w \<Longrightarrow> cur_buff w' = cur_buff w \<Longrightarrow> used w' = used w
     \<Longrightarrow> t_pc w' = t_pc w \<Longrightarrow> t_cmd w' = t_cmd w
     \<Longrightarrow> in_transit w' = in_transit w"
  using payload_mem[of w' w] by (simp add: in_transit_def held_def)

text \<open>Appending to the active buffer leaves the payload of a command alone when the
  command refers to the other buffer.\<close>

lemma payload_other_buffer:
  assumes "cmd_data c \<noteq> a" and "mem w' = (mem w)(a := g)"
  shows "payload w' c = payload w c"
  using assms by (simp add: payload_def)

lemma payloads_other_buffer:
  assumes "a \<notin> cmd_data ` set cs" and "mem w' = (mem w)(a := g)"
  shows "concat (map (payload w') cs) = concat (map (payload w) cs)"
  using assms by (induction cs) (auto simp add: payload_def)

lemma held_other_buffer:
  assumes "\<not> (t_pc w = At_write \<and> cmd_data (t_cmd w) = a)" and "mem w' = (mem w)(a := g)"
    and "t_pc w' = t_pc w" and "t_cmd w' = t_cmd w"
  shows "held w' = held w"
  using assms payload_other_buffer[of "t_cmd w" a w' w g] by (auto simp add: held_def)

lemma push_keeps_session:
  assumes tk: "sem_take e" and sn: "\<forall>k. queue_send e k"
    and inv: "session_holds p bs w"
    and free: "\<not> in_flight (Push b) w"
  shows "session_holds p (bs @ [b]) (snd (snd (writer_push_u8 e b None w)))"
proof -
  define a where "a = cur_buff w"
  define g where "g = (mem w a)(used w := b)"
  define w' where "w' = snd (snd (writer_push_u8 e b None w))"
  have fq: "a \<notin> cmd_data ` set (chan w)"
    and fh: "\<not> (t_pc w = At_write \<and> cmd_data (t_cmd w) = a)"
    using free by (auto simp add: in_flight_def a_def)
  have st: "state w = 1"
    using inv by (simp add: session_holds_def)
  have w'eq: "w' = snd (snd (spec_append e b w))"
    using tk st by (simp add: w'_def writer_push_u8_unfold spec_append_def case_prod_beta)
  have act: "map g [0..<Suc (used w)] = map (mem w a) [0..<used w] @ [b]"
    unfolding g_def by (rule map_upd_upt)
  show ?thesis
  proof (cases "used w + 1 = BUFF_SIZE")
    case True
    have f: "mem w' = (mem w)(a := g) \<and> used w' = 0
      \<and> chan w' = chan w @ [\<lparr>cmd_op = OP_FLUSH, cmd_data = a, cmd_size = BUFF_SIZE\<rparr>]
      \<and> state w' = 1 \<and> t_path w' = t_path w \<and> ev_complete w' = ev_complete w
      \<and> t_pc w' = t_pc w \<and> t_error w' = t_error w \<and> card w' = card w
      \<and> t_cmd w' = t_cmd w"
      using True st spec_append_sends_ok[OF sn, of b w]
      by (simp add: w'eq a_def g_def)
    have old: "concat (map (payload w') (chan w)) = concat (map (payload w) (chan w))"
      using payloads_other_buffer[OF fq, of w' w g] f by simp
    have hl: "held w' = held w"
      using held_other_buffer[OF fh, of w' g] f by simp
    have "payload w' \<lparr>cmd_op = OP_FLUSH, cmd_data = a, cmd_size = BUFF_SIZE\<rparr>
      = map g [0..<BUFF_SIZE]"
      using f by (simp add: payload_def)
    also have "\<dots> = map g [0..<Suc (used w)]"
      unfolding True[symmetric] by simp
    also have "\<dots> = map (mem w a) [0..<used w] @ [b]"
      by (rule act)
    finally have new: "payload w' \<lparr>cmd_op = OP_FLUSH, cmd_data = a, cmd_size = BUFF_SIZE\<rparr>
      = map (mem w a) [0..<used w] @ [b]" .
    have tr: "in_transit w' = in_transit w @ [b]"
      by (simp add: in_transit_def f old new hl a_def[symmetric])
    have wr: "written p w' = written p w"
      using f by (simp add: written_def)
    show ?thesis
      using inv f tr wr unfolding w'_def[symmetric] by (simp add: session_holds_def)
  next
    case False
    have f: "mem w' = (mem w)(a := g) \<and> used w' = Suc (used w) \<and> cur_buff w' = a
      \<and> chan w' = chan w
      \<and> state w' = 1 \<and> t_path w' = t_path w \<and> ev_complete w' = ev_complete w
      \<and> t_pc w' = t_pc w \<and> t_error w' = t_error w \<and> card w' = card w
      \<and> t_cmd w' = t_cmd w"
      using False st spec_append_sends_ok[OF sn, of b w]
      by (simp add: w'eq a_def g_def)
    have old: "concat (map (payload w') (chan w)) = concat (map (payload w) (chan w))"
      using payloads_other_buffer[OF fq, of w' w g] f by simp
    have hl: "held w' = held w"
      using held_other_buffer[OF fh, of w' g] f by simp
    have tr: "in_transit w' = in_transit w @ [b]"
      by (simp add: in_transit_def f old act hl a_def[symmetric] del: upt_Suc)
    have wr: "written p w' = written p w"
      using f by (simp add: written_def)
    show ?thesis
      using inv f tr wr unfolding w'_def[symmetric] by (simp add: session_holds_def)
  qed
qed

text \<open>A write on a card that takes every byte and syncs.\<close>

lemma task_write_ok:
  assumes "\<forall>k n. sd_write e k n = n" and "\<forall>k. sd_sync e k" and "card w (t_path w) = Some f"
  shows "card (task_write e c w) (t_path w) = Some (f @ payload w c)
    \<and> \<not> t_error (task_write e c w) \<and> t_pc (task_write e c w) = t_pc w
    \<and> ev_complete (task_write e c w) = ev_complete w \<and> chan (task_write e c w) = chan w
    \<and> mem (task_write e c w) = mem w \<and> t_path (task_write e c w) = t_path w
    \<and> state (task_write e c w) = state w \<and> cur_buff (task_write e c w) = cur_buff w
    \<and> used (task_write e c w) = used w"
  using assms by (simp add: task_write_def file_append_def payload_def Let_def)

text \<open>The part of the loop body before the test for \<^verbatim>\<open>OP_EXIT\<close>.\<close>

lemma task_body_ok:
  fixes c :: Command and w :: world and e :: env
  assumes "\<forall>k n. sd_write e k n = n" and "\<forall>k. sd_sync e k" and "card w (t_path w) = Some f"
    and "\<not> t_error w"
  defines "w1 \<equiv> (if \<not> t_error w \<and> cmd_size c > 0 then task_write e c w else w)"
  shows "card w1 (t_path w) = Some (f @ payload w c)
    \<and> \<not> t_error w1 \<and> t_pc w1 = t_pc w
    \<and> ev_complete w1 = ev_complete w \<and> chan w1 = chan w
    \<and> mem w1 = mem w \<and> t_path w1 = t_path w
    \<and> state w1 = state w \<and> cur_buff w1 = cur_buff w
    \<and> used w1 = used w"
proof (cases "cmd_size c > 0")
  case True
  then show ?thesis
    using task_write_ok[OF assms(1) assms(2) assms(3), of c] assms(4) by (simp add: w1_def)
next
  case False
  then have "payload w c = []"
    by (simp add: payload_def)
  then show ?thesis
    using False assms(3) assms(4) by (simp add: w1_def)
qed

lemma task_command_flush_ok:
  assumes "\<forall>k n. sd_write e k n = n" and "\<forall>k. sd_sync e k" and "card w (t_path w) = Some f"
    and "\<not> t_error w" and "cmd_op c = OP_FLUSH"
  shows "card (task_command e c w) (t_path w) = Some (f @ payload w c)
    \<and> \<not> t_error (task_command e c w) \<and> t_pc (task_command e c w) = At_receive
    \<and> ev_complete (task_command e c w) = ev_complete w \<and> chan (task_command e c w) = chan w
    \<and> mem (task_command e c w) = mem w \<and> t_path (task_command e c w) = t_path w
    \<and> state (task_command e c w) = state w \<and> cur_buff (task_command e c w) = cur_buff w
    \<and> used (task_command e c w) = used w"
  using task_body_ok[OF assms(1) assms(2) assms(3) assms(4), of c] assms(5)
  by (simp add: task_command_def Let_def)

lemma task_command_exit_ok:
  assumes "\<forall>k n. sd_write e k n = n" and "\<forall>k. sd_sync e k" and "card w (t_path w) = Some f"
    and "\<not> t_error w" and "cmd_op c = OP_EXIT"
  shows "card (task_command e c w) (t_path w) = Some (f @ payload w c)
    \<and> ev_complete (task_command e c w) \<and> t_pc (task_command e c w) = Task_done"
  using task_body_ok[OF assms(1) assms(2) assms(3) assms(4), of c] assms(5)
  by (simp add: task_command_def task_exit_def Let_def)

lemma task_step_keeps_session:
  assumes op: "sd_open e" and wr: "\<forall>k n. sd_write e k n = n" and sy: "\<forall>k. sd_sync e k"
    and inv: "session_holds p bs w"
    and st: "task_step e w = Some w'"
  shows "session_holds p bs w'"
proof -
  have tp: "t_path w = p"
    using inv by (simp add: session_holds_def)
  consider (opn) "t_pc w = At_open"
    | (rcv) "t_pc w = At_receive" "\<not> t_error w" "card w p \<noteq> None"
    | (wrt) "t_pc w = At_write" "\<not> t_error w" "card w p \<noteq> None" "cmd_op (t_cmd w) = OP_FLUSH"
    using inv by (auto simp add: session_holds_def)
  then show ?thesis
  proof cases
    case opn
    then have w': "w' = task_open e w"
      using st by (simp add: task_step_def)
    have pm: "payload w' = payload w"
      by (rule payload_mem) (simp add: w' task_open_def)
    have g: "t_pc w' = At_receive \<and> chan w' = chan w \<and> cur_buff w' = cur_buff w
      \<and> used w' = used w \<and> mem w' = mem w"
      by (simp add: w' task_open_def)
    have "in_transit w' = in_transit w"
      by (simp add: in_transit_def held_def pm g opn)
    moreover have "written p w' = [] \<and> written p w = []"
      using op opn inv by (simp add: w' task_open_def written_def session_holds_def)
    ultimately show ?thesis
      using inv op opn by (simp add: session_holds_def w' task_open_def)
  next
    case rcv
    obtain c rest where ch: "chan w = c # rest"
      using st rcv(1) by (cases "chan w") (simp_all add: task_step_def)
    have w': "w' = task_receive c rest w"
      using st rcv(1) ch by (simp add: task_step_def)
    have pm: "payload w' = payload w"
      by (rule payload_mem) (simp add: w' task_receive_def)
    have g: "t_pc w' = At_write \<and> t_cmd w' = c \<and> chan w' = rest \<and> cur_buff w' = cur_buff w
      \<and> used w' = used w \<and> mem w' = mem w"
      by (simp add: w' task_receive_def)
    have tr: "in_transit w' = in_transit w"
      by (simp add: in_transit_def held_def pm g rcv(1) ch)
    have wr': "written p w' = written p w"
      using rcv(1) by (simp add: written_def w' task_receive_def)
    show ?thesis
      using inv rcv ch tr wr' by (simp add: session_holds_def) (simp add: w' task_receive_def)
  next
    case wrt
    obtain f where f: "card w p = Some f"
      using wrt(3) by auto
    have w': "w' = task_command e (t_cmd w) w"
      using st wrt(1) by (simp add: task_step_def)
    have c1: "card w (t_path w) = Some f"
      using f tp by simp
    note k = task_command_flush_ok[OF wr sy c1 wrt(2) wrt(4)]
    have memeq: "mem w' = mem w"
      using k by (simp add: w')
    have tr: "in_transit w = payload w (t_cmd w) @ in_transit w'"
      using k wrt(1) payload_mem[OF memeq] by (simp add: in_transit_def held_def w')
    have wr': "written p w' = f @ payload w (t_cmd w) \<and> written p w = f"
      using k wrt(1) f tp by (simp add: written_def w')
    have "written p w' @ in_transit w' = written p w @ in_transit w"
      using tr wr' by simp
    then show ?thesis
      using inv k wrt(1) tp wr' unfolding w'[symmetric] by (simp add: session_holds_def)
  qed
qed

lemma run_keeps_session:
  assumes tk: "sem_take e" and sn: "\<forall>k. queue_send e k"
    and op: "sd_open e" and wr: "\<forall>k n. sd_write e k n = n" and sy: "\<forall>k. sd_sync e k"
  shows "session_holds p bs w \<Longrightarrow> run e evs w = Some w1 \<Longrightarrow> undisturbed e evs w
    \<Longrightarrow> session_holds p (bs @ pushed evs) w1"
proof (induction evs arbitrary: bs w)
  case Nil
  then show ?case by simp
next
  case (Cons ev evs)
  obtain w' where ex: "exec e ev w = Some w'" and rn: "run e evs w' = Some w1"
    using Cons.prems(2) by (cases "exec e ev w") simp_all
  have nf: "\<not> in_flight ev w" and un: "undisturbed e evs w'"
    using Cons.prems(3) ex by (simp_all split: if_splits)
  show ?case
  proof (cases ev)
    case (Push b)
    have free: "\<not> in_flight (Push b) w"
      using nf Push by simp
    have "w' = snd (snd (writer_push_u8 e b None w))"
      using ex Push by (simp add: exec_def)
    then have "session_holds p (bs @ [b]) w'"
      using push_keeps_session[OF tk sn Cons.prems(1) free] by simp
    then show ?thesis
      using Cons.IH[OF _ rn un, of "bs @ [b]"] Push by simp
  next
    case Task
    then have "task_step e w = Some w'"
      using ex by (simp add: exec_def)
    then have "session_holds p bs w'"
      using task_step_keeps_session[OF op wr sy Cons.prems(1)] by simp
    then show ?thesis
      using Cons.IH[OF _ rn un, of bs] Task by simp
  qed
qed

text \<open>The task running alone through flush commands and a final exit command, on a card
  that takes every byte: the payloads end up in the file, in the order of the queue, and
  the completion bit is set.\<close>

lemma task_loop_drains:
  assumes wr: "\<forall>k n. sd_write e k n = n" and sy: "\<forall>k. sd_sync e k"
    and ex: "cmd_op x = OP_EXIT"
  shows "\<not> t_error w \<Longrightarrow> card w (t_path w) = Some f \<Longrightarrow> list_all (\<lambda>c. cmd_op c = OP_FLUSH) fs
    \<Longrightarrow> ev_complete (task_loop e (fs @ [x]) w)
      \<and> card (task_loop e (fs @ [x]) w) (t_path w)
          = Some (f @ concat (map (payload w) (fs @ [x])))"
proof (induction fs arbitrary: w f)
  case Nil
  define w0 where "w0 = task_receive x [] w"
  have c1: "card w0 (t_path w0) = Some f"
    using Nil.prems(2) by (simp add: w0_def task_receive_def)
  have c2: "\<not> t_error w0"
    using Nil.prems(1) by (simp add: w0_def task_receive_def)
  have pl: "payload w0 x = payload w x" and tp: "t_path w0 = t_path w"
    by (simp_all add: payload_def w0_def task_receive_def)
  show ?case
    using task_command_exit_ok[OF wr sy c1 c2 ex] ex pl tp
    by (simp add: Let_def w0_def[symmetric])
next
  case (Cons c fs)
  define w0 where "w0 = task_receive c (fs @ [x]) w"
  define w1 where "w1 = task_command e c w0"
  have fl: "cmd_op c = OP_FLUSH" and rest: "list_all (\<lambda>c. cmd_op c = OP_FLUSH) fs"
    using Cons.prems(3) by simp_all
  have c1: "card w0 (t_path w0) = Some f"
    using Cons.prems(2) by (simp add: w0_def task_receive_def)
  have c2: "\<not> t_error w0"
    using Cons.prems(1) by (simp add: w0_def task_receive_def)
  note k = task_command_flush_ok[OF wr sy c1 c2 fl]
  have tp0: "t_path w0 = t_path w" and m0: "mem w0 = mem w"
    by (simp_all add: w0_def task_receive_def)
  have tp: "t_path w1 = t_path w" and m: "mem w1 = mem w"
    using k tp0 m0 by (simp_all add: w1_def)
  have pl0: "payload w0 = payload w"
    by (rule payload_mem) (rule m0)
  have pl1: "payload w1 = payload w"
    by (rule payload_mem) (rule m)
  have e1: "\<not> t_error w1" and d1: "card w1 (t_path w1) = Some (f @ payload w c)"
    using k tp0 tp pl0 by (simp_all add: w1_def)
  have lp: "task_loop e ((c # fs) @ [x]) w = task_loop e (fs @ [x]) w1"
    using fl by (simp add: Let_def w1_def w0_def)
  show ?case
    unfolding lp using Cons.IH[OF e1 d1 rest] tp pl1 by simp
qed

lemma finish_release_card:
  "fst (finish_release 0 w) = 0 \<and> card (snd (finish_release 0 w)) = card w"
  by (simp add: finish_release_def Let_def vQueueDelete_def vSemaphoreDelete_def
      vEventGroupDelete_def split: option.splits)

text \<open>Finishing a session that holds \<open>bs\<close>: the call returns 0 and the file is \<open>bs\<close>.\<close>

lemma finish_delivers:
  assumes tk: "sem_take e" and sn: "\<forall>k. queue_send e k"
    and op: "sd_open e" and wr: "\<forall>k n. sd_write e k n = n" and sy: "\<forall>k. sd_sync e k"
    and inv: "session_holds p bs w"
  shows "\<exists>w2. writer_finish e w = Some (0, w2) \<and> card w2 p = Some bs"
proof -
  define x where "x = \<lparr>cmd_op = OP_EXIT, cmd_data = cur_buff w, cmd_size = used w\<rparr>"
  define w1 where "w1 = w\<lparr>chan := chan w @ [x], n_sends := n_sends w + 1\<rparr>"
  have fs: "finish_send e w = (0, w1)"
    using tk sn by (simp add: finish_send_def xQueueSend_def Let_def w1_def x_def)
  have ex: "cmd_op x = OP_EXIT"
    by (simp add: x_def)
  have fl: "list_all (\<lambda>c. cmd_op c = OP_FLUSH) (chan w)" and tp: "t_path w = p"
    and ne: "\<not> ev_complete w"
    using inv by (simp_all add: session_holds_def)
  have tr: "held w @ concat (map (payload w) (chan w @ [x])) = in_transit w"
    by (simp add: in_transit_def payload_def x_def)
  have bs: "bs = written p w @ in_transit w"
    using inv by (simp add: session_holds_def)
  consider (opn) "t_pc w = At_open"
    | (rcv) "t_pc w = At_receive" "\<not> t_error w" "card w p \<noteq> None"
    | (wrt) "t_pc w = At_write" "\<not> t_error w" "card w p \<noteq> None" "cmd_op (t_cmd w) = OP_FLUSH"
    using inv by (auto simp add: session_holds_def)
  then have run: "ev_complete (task_run e w1) \<and> card (task_run e w1) p = Some bs"
  proof cases
    case opn
    define w0 where "w0 = task_open e w1"
    have a: "\<not> t_error w0" and b: "card w0 (t_path w0) = Some []" and c: "chan w0 = chan w @ [x]"
      and d: "t_path w0 = p" and m: "mem w0 = mem w"
      using op tp by (simp_all add: w0_def task_open_def w1_def)
    have pc1: "t_pc w1 = At_open"
      using opn by (simp add: w1_def)
    have tr0: "task_run e w1 = task_loop e (chan w @ [x]) w0"
      using pc1 c by (simp add: task_run_def Let_def w0_def[symmetric])
    have "written p w = [] \<and> held w = []"
      using opn by (simp add: written_def held_def)
    then have bs': "bs = concat (map (payload w) (chan w @ [x]))"
      using bs tr by simp
    show ?thesis
      unfolding tr0 using task_loop_drains[OF wr sy ex a b fl] d payload_mem[OF m] bs' by simp
  next
    case rcv
    obtain f where f: "card w p = Some f"
      using rcv(3) by auto
    have a: "\<not> t_error w1" and b: "card w1 (t_path w1) = Some f"
      and d: "t_path w1 = p" and m: "mem w1 = mem w"
      using rcv(2) f tp by (simp_all add: w1_def)
    have tr0: "task_run e w1 = task_loop e (chan w @ [x]) w1"
      using rcv(1) by (simp add: task_run_def w1_def)
    have "written p w = f \<and> held w = []"
      using rcv(1) f by (simp add: written_def held_def)
    then have bs': "bs = f @ concat (map (payload w) (chan w @ [x]))"
      using bs tr by simp
    show ?thesis
      unfolding tr0 using task_loop_drains[OF wr sy ex a b fl] d payload_mem[OF m] bs' by simp
  next
    case wrt
    obtain f where f: "card w p = Some f"
      using wrt(3) by auto
    define w0 where "w0 = task_command e (t_cmd w1) w1"
    have cm: "t_cmd w1 = t_cmd w" and pc1: "t_pc w1 = At_write"
      using wrt(1) by (simp_all add: w1_def)
    have c1: "card w1 (t_path w1) = Some f" and c2: "\<not> t_error w1"
      using f tp wrt(2) by (simp_all add: w1_def)
    have fl1: "cmd_op (t_cmd w1) = OP_FLUSH"
      using wrt(4) cm by simp
    note k = task_command_flush_ok[OF wr sy c1 c2 fl1]
    have m1: "mem w1 = mem w"
      by (simp add: w1_def)
    note k' = k[folded w0_def]
    have tp1: "t_path w1 = p" and ch1: "chan w1 = chan w @ [x]"
      using tp by (simp_all add: w1_def)
    have a: "\<not> t_error w0" and b: "card w0 (t_path w0) = Some (f @ payload w (t_cmd w))"
      and c: "chan w0 = chan w @ [x]" and d: "t_path w0 = p" and m: "mem w0 = mem w"
      using k' tp1 ch1 cm m1 payload_mem[OF m1] by simp_all
    have tr0: "task_run e w1 = task_loop e (chan w @ [x]) w0"
      using pc1 fl1 c by (simp add: task_run_def Let_def w0_def[symmetric])
    have "written p w = f \<and> held w = payload w (t_cmd w)"
      using wrt(1) f by (simp add: written_def held_def)
    then have bs': "bs = (f @ payload w (t_cmd w)) @ concat (map (payload w) (chan w @ [x]))"
      using bs tr by simp
    show ?thesis
      unfolding tr0 using task_loop_drains[OF wr sy ex a b fl] d payload_mem[OF m] bs' by simp
  qed
  have ne1: "\<not> ev_complete w1"
    using ne by (simp add: w1_def)
  have wt: "xEventGroupWaitBits e w1 = Some ((task_run e w1)\<lparr>ev_complete := False\<rparr>)"
    using ne1 run by (simp add: xEventGroupWaitBits_def Let_def)
  define w2 where "w2 = snd (finish_release 0 ((task_run e w1)\<lparr>ev_complete := False\<rparr>))"
  have fr: "finish_release 0 ((task_run e w1)\<lparr>ev_complete := False\<rparr>) = (0, w2)"
    using finish_release_card[of "(task_run e w1)\<lparr>ev_complete := False\<rparr>"]
    by (simp add: w2_def prod_eq_iff)
  have "writer_finish e w = Some (0, w2)"
    using fs wt fr by (simp add: writer_finish_def)
  moreover have "card w2 p = Some bs"
    using run finish_release_card[of "(task_run e w1)\<lparr>ev_complete := False\<rparr>"]
    by (simp add: w2_def)
  ultimately show ?thesis
    by blast
qed

lemma session_open_holds: "session_open p w \<Longrightarrow> session_holds p [] w"
  by (simp add: session_open_def session_holds_def written_def in_transit_def held_def)

lemmas push_eval = writer_push_u8_unfold push_byte_def xQueueSend_def exec_def task_step_def
  task_open_def in_flight_def Let_def

lemmas finish_eval = writer_finish_def finish_send_def xEventGroupWaitBits_def
  task_run_def task_command_def task_write_def task_exit_def task_receive_def payload_def
  file_append_def finish_release_def vQueueDelete_def vSemaphoreDelete_def
  vEventGroupDelete_def

lemma running_open: "session_open ''log.csv'' running"
  by (simp add: session_open_def running_fields)

subsection \<open>Batches, and a buffer overwritten while queued\<close>

lemma run_append:
  "run e (xs @ ys) w = (case run e xs w of None \<Rightarrow> None | Some w1 \<Rightarrow> run e ys w1)"
  by (induction xs arbitrary: w) (simp_all split: option.splits)

lemma pushed_map_Push: "pushed (map Push bs) = bs"
  by (induction bs) simp_all

lemma spec_append_state:
  "state (snd (snd (spec_append e b w))) = state w"
  using push_byte_task_fields[of e b False w] by (simp add: spec_append_def case_prod_beta)

text \<open>While the sends succeed, a batch of bytes leaves the state that pushing the bytes
  one call at a time leaves.\<close>

lemma batch_is_run_of_bytes:
  assumes "sem_take e" and "\<forall>k. queue_send e k"
  shows "state w = 1 \<Longrightarrow> run e (map Push bs) w = Some (snd (snd (spec_append_all e bs w)))"
proof (induction bs arbitrary: w)
  case Nil
  show ?case by simp
next
  case (Cons b bs)
  define w1 where "w1 = snd (snd (spec_append e b w))"
  have sa: "spec_append e b w = (True, used w + 1 = BUFF_SIZE, w1)"
    using spec_append_sends_ok[OF assms(2), of b w] by (simp add: w1_def)
  have ex: "exec e (Push b) w = Some w1"
    using assms(1) Cons.prems
    by (simp add: exec_def writer_push_u8_unfold w1_def spec_append_def case_prod_beta)
  have st: "state w1 = 1"
    using spec_append_state[of e b w] Cons.prems by (simp add: w1_def)
  show ?case
    using ex sa Cons.IH[OF st] by (simp add: case_prod_beta)
qed

lemma push_buf_is_run_of_bytes:
  assumes "sem_take e" and "\<forall>k. queue_send e k" and "state w = 1"
  shows "run e (map Push (take sz src)) w = Some (snd (snd (writer_push_buf e src sz dst w)))"
  using batch_is_run_of_bytes[OF assms(1) assms(2) assms(3), of "take sz src"] assms(1) assms(3)
  by (simp add: writer_push_buf_unfold push_buf_loop_spec case_prod_beta)

text \<open>Bytes that fill the active buffer exactly: one rotation, at the last byte.\<close>

lemma fill_active_buffer:
  assumes sn: "\<forall>k. queue_send e k"
  shows "bs \<noteq> [] \<Longrightarrow> used w + length bs = BUFF_SIZE \<Longrightarrow>
     chan (snd (snd (spec_append_all e bs w)))
       = chan w @ [\<lparr>cmd_op = OP_FLUSH, cmd_data = cur_buff w, cmd_size = BUFF_SIZE\<rparr>]
     \<and> cur_buff (snd (snd (spec_append_all e bs w)))
       = (if cur_buff w = buff_plane1 then buff_plane2 else buff_plane1)
     \<and> used (snd (snd (spec_append_all e bs w))) = 0
     \<and> state (snd (snd (spec_append_all e bs w))) = state w
     \<and> t_pc (snd (snd (spec_append_all e bs w))) = t_pc w
     \<and> t_path (snd (snd (spec_append_all e bs w))) = t_path w
     \<and> ev_complete (snd (snd (spec_append_all e bs w))) = ev_complete w"
proof (induction bs arbitrary: w)
  case Nil
  then show ?case by simp
next
  case (Cons b bs)
  define w1 where "w1 = snd (snd (spec_append e b w))"
  have sa: "spec_append e b w = (True, used w + 1 = BUFF_SIZE, w1)"
    using spec_append_sends_ok[OF sn, of b w] by (simp add: w1_def)
  have al: "snd (snd (spec_append_all e (b # bs) w)) = snd (snd (spec_append_all e bs w1))"
    using sa by (simp add: case_prod_beta)
  show ?case
  proof (cases "bs = []")
    case True
    then have full: "used w + 1 = BUFF_SIZE"
      using Cons.prems(2) by simp
    show ?thesis
      unfolding al using True full spec_append_sends_ok[OF sn, of b w]
      by (simp add: w1_def)
  next
    case False
    then have nf: "used w + 1 \<noteq> BUFF_SIZE"
      using Cons.prems(2) by (cases bs) simp_all
    have w1f: "used w1 = used w + 1 \<and> chan w1 = chan w \<and> cur_buff w1 = cur_buff w
      \<and> state w1 = state w \<and> t_pc w1 = t_pc w \<and> t_path w1 = t_path w
      \<and> ev_complete w1 = ev_complete w"
      using nf spec_append_sends_ok[OF sn, of b w] by (simp add: w1_def)
    have len: "used w1 + length bs = BUFF_SIZE"
      using w1f Cons.prems(2) by simp
    show ?thesis
      unfolding al using Cons.IH[OF False len] w1f by simp
  qed
qed

lemma env_ok_fields:
  "sem_take env_ok" "\<forall>k. queue_send env_ok k" "sd_open env_ok"
  "\<forall>k n. sd_write env_ok k n = n" "\<forall>k. sd_sync env_ok k"
  by (simp_all add: env_ok_def)

text \<open>The state after the burst was pushed in one call, the task not having run.\<close>

lemma burst_pushed:
  defines "w3 \<equiv> snd (snd (writer_push_buf env_ok burst (length burst) None running))"
  shows "fst (writer_push_buf env_ok burst (length burst) None running) = 0
    \<and> chan w3 = [\<lparr>cmd_op = OP_FLUSH, cmd_data = buff_plane1, cmd_size = BUFF_SIZE\<rparr>,
                 \<lparr>cmd_op = OP_FLUSH, cmd_data = buff_plane2, cmd_size = BUFF_SIZE\<rparr>]
    \<and> cur_buff w3 = buff_plane1 \<and> used w3 = 1 \<and> mem w3 buff_plane1 0 = 3
    \<and> state w3 = 1 \<and> t_pc w3 = At_open \<and> t_path w3 = ''log.csv'' \<and> \<not> ev_complete w3"
proof -
  note sn = env_ok_fields(2)
  define w1 where "w1 = snd (snd (spec_append_all env_ok (replicate BUFF_SIZE 1) running))"
  define w2 where "w2 = snd (snd (spec_append_all env_ok (replicate BUFF_SIZE 2) w1))"
  have ne: "replicate BUFF_SIZE (b::byte) \<noteq> []" for b
    using BUFF_SIZE_pos by simp
  have l1: "used running + length (replicate BUFF_SIZE (1::byte)) = BUFF_SIZE"
    by (simp add: running_fields)
  have f1: "chan w1 = [\<lparr>cmd_op = OP_FLUSH, cmd_data = buff_plane1, cmd_size = BUFF_SIZE\<rparr>]
    \<and> cur_buff w1 = buff_plane2 \<and> used w1 = 0 \<and> state w1 = 1 \<and> t_pc w1 = At_open
    \<and> t_path w1 = ''log.csv'' \<and> \<not> ev_complete w1"
    using fill_active_buffer[OF sn ne l1] by (simp add: w1_def running_fields)
  have l2: "used w1 + length (replicate BUFF_SIZE (2::byte)) = BUFF_SIZE"
    using f1 by simp
  have d: "buff_plane2 \<noteq> buff_plane1"
    by (simp add: buff_plane1_def buff_plane2_def)
  have f2: "chan w2 = [\<lparr>cmd_op = OP_FLUSH, cmd_data = buff_plane1, cmd_size = BUFF_SIZE\<rparr>,
                      \<lparr>cmd_op = OP_FLUSH, cmd_data = buff_plane2, cmd_size = BUFF_SIZE\<rparr>]
    \<and> cur_buff w2 = buff_plane1 \<and> used w2 = 0 \<and> state w2 = 1 \<and> t_pc w2 = At_open
    \<and> t_path w2 = ''log.csv'' \<and> \<not> ev_complete w2"
    using fill_active_buffer[OF sn ne l2] f1 d by (simp add: w2_def)
  have r1: "run env_ok (map Push (replicate BUFF_SIZE 1)) running = Some w1"
    unfolding w1_def
    by (rule batch_is_run_of_bytes[OF env_ok_fields(1) sn]) (simp add: running_fields)
  have r2: "run env_ok (map Push (replicate BUFF_SIZE 2)) w1 = Some w2"
    unfolding w2_def
    by (rule batch_is_run_of_bytes[OF env_ok_fields(1) sn]) (simp add: f1)
  have r3: "run env_ok (map Push [3]) w2 = Some (snd (snd (spec_append env_ok 3 w2)))"
    using batch_is_run_of_bytes[OF env_ok_fields(1) sn, of w2 "[3]"] f2
    by (simp add: case_prod_beta)
  have rb: "run env_ok (map Push burst) running = Some (snd (snd (spec_append env_ok 3 w2)))"
    by (simp only: burst_def map_append run_append r1 r2 r3 option.case)
  have len: "take (length burst) burst = burst"
    by simp
  have w3eq: "w3 = snd (snd (spec_append env_ok 3 w2))"
    using push_buf_is_run_of_bytes[OF env_ok_fields(1) sn, of running "length burst" burst None]
      rb running_fields unfolding len by (simp add: w3_def)
  have one: "used w2 + 1 \<noteq> BUFF_SIZE"
    using f2 by (simp add: BUFF_SIZE_def)
  have f3: "chan w3 = chan w2 \<and> cur_buff w3 = buff_plane1 \<and> used w3 = 1
    \<and> mem w3 buff_plane1 0 = 3 \<and> state w3 = 1 \<and> t_pc w3 = At_open
    \<and> t_path w3 = ''log.csv'' \<and> \<not> ev_complete w3"
    unfolding w3eq using one f2 spec_append_sends_ok[OF sn, of 3 w2] by simp
  have u0: "used running < BUFF_SIZE"
    using BUFF_SIZE_pos by (simp add: running_fields)
  have ok: "fst (spec_append_all env_ok burst running)"
    using spec_append_all_count[OF sn u0, of burst] by simp
  have ret: "fst (writer_push_buf env_ok burst (length burst) None running) = 0"
    using ok env_ok_fields(1)
    by (simp add: writer_push_buf_unfold push_buf_loop_spec case_prod_beta len running_fields)
  show ?thesis
    using ret f3 f2 by simp
qed

text \<open>The appends leave the task's variables and the card alone.\<close>

lemma spec_append_all_task_side:
  assumes sn: "\<forall>k. queue_send e k"
  shows "t_error (snd (snd (spec_append_all e bs w))) = t_error w
     \<and> card (snd (snd (spec_append_all e bs w))) = card w
     \<and> t_cmd (snd (snd (spec_append_all e bs w))) = t_cmd w"
proof (induction bs arbitrary: w)
  case Nil
  show ?case by simp
next
  case (Cons b bs)
  define w1 where "w1 = snd (snd (spec_append e b w))"
  have sa: "spec_append e b w = (True, used w + 1 = BUFF_SIZE, w1)"
    using spec_append_sends_ok[OF sn, of b w] by (simp add: w1_def)
  have al: "snd (snd (spec_append_all e (b # bs) w)) = snd (snd (spec_append_all e bs w1))"
    using sa by (simp add: case_prod_beta)
  have w1f: "t_error w1 = t_error w \<and> card w1 = card w \<and> t_cmd w1 = t_cmd w"
    using spec_append_sends_ok[OF sn, of b w] by (simp add: w1_def)
  show ?case
    unfolding al using Cons.IH[of w1] w1f by simp
qed

text \<open>The state after the schedule \<open>handover\<close>: the task holds the command for the first
  buffer, which it has not read yet, and the 3 is at the head of that buffer.\<close>

lemma buffer_handed_over:
  "\<exists>w. run env_ok handover running = Some w
     \<and> chan w = [\<lparr>cmd_op = OP_FLUSH, cmd_data = buff_plane2, cmd_size = BUFF_SIZE\<rparr>]
     \<and> t_pc w = At_write
     \<and> t_cmd w = \<lparr>cmd_op = OP_FLUSH, cmd_data = buff_plane1, cmd_size = BUFF_SIZE\<rparr>
     \<and> cur_buff w = buff_plane1 \<and> used w = 1 \<and> mem w buff_plane1 0 = 3
     \<and> state w = 1 \<and> t_path w = ''log.csv'' \<and> \<not> ev_complete w
     \<and> \<not> t_error w \<and> card w = [''log.csv'' \<mapsto> []]"
proof -
  note sn = env_ok_fields(2)
  define c1 where "c1 = \<lparr>cmd_op = OP_FLUSH, cmd_data = buff_plane1, cmd_size = BUFF_SIZE\<rparr>"
  define w1 where "w1 = snd (snd (spec_append_all env_ok (replicate BUFF_SIZE 1) running))"
  define wa where "wa = task_open env_ok w1"
  define wb where "wb = task_receive c1 [] wa"
  define w2 where "w2 = snd (snd (spec_append_all env_ok (replicate BUFF_SIZE 2) wb))"
  define w3 where "w3 = snd (snd (spec_append env_ok 3 w2))"
  have ne: "replicate BUFF_SIZE (b::byte) \<noteq> []" for b
    using BUFF_SIZE_pos by simp
  have l1: "used running + length (replicate BUFF_SIZE (1::byte)) = BUFF_SIZE"
    by (simp add: running_fields)
  have f1: "chan w1 = [c1]
    \<and> cur_buff w1 = buff_plane2 \<and> used w1 = 0 \<and> state w1 = 1 \<and> t_pc w1 = At_open
    \<and> t_path w1 = ''log.csv'' \<and> \<not> ev_complete w1"
    using fill_active_buffer[OF sn ne l1] by (simp add: w1_def running_fields c1_def)
  have g1: "card w1 = Map.empty"
    using spec_append_all_task_side[OF sn, of "replicate BUFF_SIZE 1" running]
    by (simp add: w1_def running_fields)
  have fa: "chan wa = [c1] \<and> cur_buff wa = buff_plane2 \<and> used wa = 0 \<and> state wa = 1
    \<and> t_pc wa = At_receive \<and> t_path wa = ''log.csv'' \<and> \<not> ev_complete wa
    \<and> \<not> t_error wa \<and> card wa = [''log.csv'' \<mapsto> []]"
    using f1 g1 env_ok_fields(3) by (simp add: wa_def task_open_def)
  have fb: "chan wb = [] \<and> cur_buff wb = buff_plane2 \<and> used wb = 0 \<and> state wb = 1
    \<and> t_pc wb = At_write \<and> t_cmd wb = c1 \<and> t_path wb = ''log.csv'' \<and> \<not> ev_complete wb
    \<and> \<not> t_error wb \<and> card wb = [''log.csv'' \<mapsto> []]"
    using fa by (simp add: wb_def task_receive_def)
  have l2: "used wb + length (replicate BUFF_SIZE (2::byte)) = BUFF_SIZE"
    using fb by simp
  have d: "buff_plane2 \<noteq> buff_plane1"
    by (simp add: buff_plane1_def buff_plane2_def)
  have f2: "chan w2 = [\<lparr>cmd_op = OP_FLUSH, cmd_data = buff_plane2, cmd_size = BUFF_SIZE\<rparr>]
    \<and> cur_buff w2 = buff_plane1 \<and> used w2 = 0 \<and> state w2 = 1 \<and> t_pc w2 = At_write
    \<and> t_path w2 = ''log.csv'' \<and> \<not> ev_complete w2"
    using fill_active_buffer[OF sn ne l2] fb d by (simp add: w2_def)
  have g2: "\<not> t_error w2 \<and> card w2 = [''log.csv'' \<mapsto> []] \<and> t_cmd w2 = c1"
    using spec_append_all_task_side[OF sn, of "replicate BUFF_SIZE 2" wb] fb
    by (simp add: w2_def)
  have one: "used w2 + 1 \<noteq> BUFF_SIZE"
    using f2 by (simp add: BUFF_SIZE_def)
  have f3: "chan w3 = chan w2 \<and> cur_buff w3 = buff_plane1 \<and> used w3 = 1
    \<and> mem w3 buff_plane1 0 = 3 \<and> state w3 = 1 \<and> t_pc w3 = At_write
    \<and> t_path w3 = ''log.csv'' \<and> \<not> ev_complete w3
    \<and> \<not> t_error w3 \<and> card w3 = [''log.csv'' \<mapsto> []] \<and> t_cmd w3 = c1"
    unfolding w3_def using one f2 g2 spec_append_sends_ok[OF sn, of 3 w2] by simp
  have r1: "run env_ok (map Push (replicate BUFF_SIZE 1)) running = Some w1"
    unfolding w1_def
    by (rule batch_is_run_of_bytes[OF env_ok_fields(1) sn]) (simp add: running_fields)
  have ra: "run env_ok [Task, Task] w1 = Some wb"
    using f1 fa by (simp add: exec_def task_step_def wa_def[symmetric] wb_def)
  have r2: "run env_ok (map Push (replicate BUFF_SIZE 2)) wb = Some w2"
    unfolding w2_def
    by (rule batch_is_run_of_bytes[OF env_ok_fields(1) sn]) (simp add: fb)
  have r3: "run env_ok [Push 3] w2 = Some w3"
    using batch_is_run_of_bytes[OF env_ok_fields(1) sn, of w2 "[3]"] f2
    by (simp add: case_prod_beta w3_def)
  have rb: "run env_ok handover running = Some w3"
    by (simp only: handover_def run_append r1 ra r2 r3 option.case)
  show ?thesis
    using rb f3 f2 by (simp add: c1_def)
qed

text \<open>No command in the queue refers to the active buffer at any push of \<open>handover\<close>, and
  the queue never holds more than one command; still the file begins with the 3, because
  the buffer of a received command is read after the producer was free to append to it.\<close>

lemma received_buffer_is_overwritten:
  "\<exists>w. run env_ok handover running = Some w
     \<and> cur_buff w \<notin> cmd_data ` set (chan w)
     \<and> length (chan w) = 1
     \<and> map_option fst (writer_finish env_ok w) = Some 0
     \<and> map_option (\<lambda>r. map_option hd (card (snd r) ''log.csv'')) (writer_finish env_ok w)
         = Some (Some 3)
     \<and> hd (pushed handover) = 1"
proof -
  obtain w where f: "run env_ok handover running = Some w"
     "chan w = [\<lparr>cmd_op = OP_FLUSH, cmd_data = buff_plane2, cmd_size = BUFF_SIZE\<rparr>]"
     "t_pc w = At_write"
     "t_cmd w = \<lparr>cmd_op = OP_FLUSH, cmd_data = buff_plane1, cmd_size = BUFF_SIZE\<rparr>"
     "cur_buff w = buff_plane1" "used w = 1" "mem w buff_plane1 0 = 3"
     "state w = 1" "t_path w = ''log.csv''" "\<not> ev_complete w"
     "\<not> t_error w" "card w = [''log.csv'' \<mapsto> []]"
    using buffer_handed_over by blast
  have holds: "session_holds ''log.csv'' (in_transit w) w"
    using f by (simp add: session_holds_def written_def)
  obtain w4 where w4: "writer_finish env_ok w = Some (0, w4)"
    "card w4 ''log.csv'' = Some (in_transit w)"
    using finish_delivers[OF env_ok_fields holds] by blast
  have up: "[0..<BUFF_SIZE] = 0 # [1..<BUFF_SIZE]"
    using BUFF_SIZE_pos by (simp add: upt_conv_Cons)
  have hd3: "hd (in_transit w) = 3"
    using f by (simp add: in_transit_def held_def payload_def up)
  have d: "buff_plane1 \<noteq> buff_plane2"
    by (simp add: buff_plane1_def buff_plane2_def)
  have a: "map_option fst (writer_finish env_ok w) = Some 0"
    unfolding w4(1) by simp
  have b: "map_option (\<lambda>r. map_option hd (card (snd r) ''log.csv'')) (writer_finish env_ok w)
    = Some (Some 3)"
    unfolding w4(1) using w4(2) hd3 by simp
  have p: "pushed (xs @ ys) = pushed xs @ pushed ys" for xs ys
    by (induction xs rule: pushed.induct) simp_all
  have h1: "hd (pushed handover) = 1"
    using BUFF_SIZE_pos
    by (simp only: handover_def p pushed_map_Push) (simp add: hd_append)
  show ?thesis
    using f(1,2,5) a b h1 d by auto
qed

subsection \<open>Sessions that are delivered\<close>

text \<open>A session has just been started on the path \<open>p\<close>.  The producer pushes bytes and the
  task steps in between, in an order in which no byte is appended to a buffer that a command
  in the queue, or the command the task has received and is handling, refers to.  If the
  take of the mutex and the sends succeed and the card opens the file, writes every byte it
  is given and syncs, then \<open>writer_finish\<close> returns 0 and the file holds the pushed bytes in
  the order of the pushes.  The condition on the order is one on the schedule: nothing in
  writer.cpp makes the producer wait for the buffer it is about to append to.\<close>

lemma undisturbed_session_is_delivered:
  assumes "sem_take e" and "\<forall>k. queue_send e k"
    and "sd_open e" and "\<forall>k n. sd_write e k n = n" and "\<forall>k. sd_sync e k"
    and "session_open p w"
    and "run e evs w = Some w1"
    and "undisturbed e evs w"
  shows "\<exists>w2. writer_finish e w1 = Some (0, w2) \<and> card w2 p = Some (pushed evs)"
proof -
  have "session_holds p ([] @ pushed evs) w1"
    using run_keeps_session[OF assms(1-5) session_open_holds[OF assms(6)] assms(7) assms(8)] .
  then show ?thesis
    using finish_delivers[OF assms(1-5), of p "pushed evs" w1] by simp
qed

text \<open>With no push at all the file is empty, and the completion bit was waited for.\<close>

lemma empty_session_is_delivered:
  "map_option fst (writer_finish env_ok running) = Some 0
   \<and> map_option (\<lambda>r. card (snd r) ''log.csv'') (writer_finish env_ok running)
       = Some (Some [])"
proof -
  have r0: "run env_ok [] running = Some running" and u0: "undisturbed env_ok [] running"
    by simp_all
  obtain w3 where w3: "writer_finish env_ok running = Some (0, w3)"
    "card w3 ''log.csv'' = Some (pushed [])"
    using undisturbed_session_is_delivered[OF env_ok_fields running_open r0 u0] by blast
  show ?thesis
    unfolding w3(1) using w3(2) by simp
qed

text \<open>A fault of the card is not reported to the producer.  On a card whose open fails, a
  byte is pushed on the running session and the push returns 0, \<open>writer_finish\<close> returns 0,
  and there is no file at the path.\<close>

lemma failed_open_leaves_no_file:
  "session_open ''log.csv'' running
   \<and> fst (writer_push_u8 env_no_open 1 None running) = 0
   \<and> map_option fst
        (writer_finish env_no_open (snd (snd (writer_push_u8 env_no_open 1 None running))))
       = Some 0
   \<and> map_option (\<lambda>r. card (snd r) ''log.csv'')
        (writer_finish env_no_open (snd (snd (writer_push_u8 env_no_open 1 None running))))
       = Some None"
  using running_open
  by (simp add: push_eval finish_eval running_fields env_no_open_def env_ok_def BUFF_SIZE_def)

subsection \<open>The outcomes of writer_start\<close>

text \<open>When the path is given, the state is 0 and the four creations succeed, the session
  is open: \<open>ret\<close> is 0, the handles are stored and the state is 1.\<close>

lemma start_success:
  assumes "state w = 0" and "queue_create e = Some hq" and "mutex_create e = Some hm"
    and "events_create e = Some he" and "task_create e = Some ht"
  shows "start_ret e (Some p) w = 0
    \<and> state (snd (writer_start e (Some p) w)) = 1
    \<and> queue (snd (writer_start e (Some p) w)) = Some hq
    \<and> mutex (snd (writer_start e (Some p) w)) = Some hm
    \<and> events (snd (writer_start e (Some p) w)) = Some he
    \<and> task (snd (writer_start e (Some p) w)) = Some ht
    \<and> chan (snd (writer_start e (Some p) w)) = []
    \<and> \<not> ev_complete (snd (writer_start e (Some p) w))
    \<and> t_pc (snd (writer_start e (Some p) w)) = At_open
    \<and> t_path (snd (writer_start e (Some p) w)) = p
    \<and> used (snd (writer_start e (Some p) w)) = used w"
  using assms by (simp add: start_defs)

lemma start_opens_session:
  assumes "state w = 0" and "used w = 0" and "queue_create e = Some hq"
    and "mutex_create e = Some hm" and "events_create e = Some he" and "task_create e = Some ht"
  shows "session_open p (snd (writer_start e (Some p) w))"
  using start_success[OF assms(1) assms(3-6), of p] assms(2) by (simp add: session_open_def)

text \<open>When \<open>ret\<close> is not 0 at the end, the state is kept, the four handles are
  \<^verbatim>\<open>NULL\<close>, and no object is alive that was not alive before the call.\<close>

lemma start_cleanup_result:
  "queue (start_cleanup w) = None \<and> mutex (start_cleanup w) = None
   \<and> events (start_cleanup w) = None \<and> task (start_cleanup w) = None
   \<and> live (start_cleanup w)
       = live w - (set_option (queue w) \<union> set_option (mutex w) \<union> set_option (events w)
                   \<union> set_option (task w))"
  by (auto simp add: start_cleanup_def vQueueDelete_def vSemaphoreDelete_def
      vEventGroupDelete_def vTaskDelete_def split: option.splits)

lemma start_queue_live:
  "live (snd (start_queue e rw)) \<subseteq> live (snd rw) \<union> set_option (queue (snd (start_queue e rw)))"
  by (auto simp add: start_queue_def xQueueCreate_def case_prod_beta split: option.splits)

lemma start_body_idle:
  assumes "state w = 0"
  shows "start_body e (Some p) w =
    (case queue_create e of
       None \<Rightarrow> (182, start_cleanup (xQueueCreate e w))
     | Some hq \<Rightarrow>
        (case mutex_create e of
           None \<Rightarrow> (187, start_cleanup (xSemaphoreCreateMutex e (xQueueCreate e w)))
         | Some hm \<Rightarrow>
            (case events_create e of
               None \<Rightarrow> (192, start_cleanup (xEventGroupCreate e
                                (xSemaphoreCreateMutex e (xQueueCreate e w))))
             | Some he \<Rightarrow>
                (case task_create e of
                   None \<Rightarrow> (204, start_cleanup (xEventGroupCreate e
                                    (xSemaphoreCreateMutex e (xQueueCreate e w))))
                 | Some ht \<Rightarrow>
                     (0, (snd (xTaskCreateUniversal e p (xEventGroupCreate e
                            (xSemaphoreCreateMutex e (xQueueCreate e w)))))\<lparr>state := 1\<rparr>)))))"
  using assms
  by (simp add: start_body_def start_queue_def start_mutex_def start_events_def start_task_def
      xQueueCreate_def xSemaphoreCreateMutex_def xEventGroupCreate_def xTaskCreateUniversal_def
      split: option.splits)

lemma start_failure_releases:
  assumes "state w = 0" and "start_ret e path w \<noteq> 0"
  shows "state (snd (writer_start e path w)) = 0
    \<and> queue (snd (writer_start e path w)) = None
    \<and> mutex (snd (writer_start e path w)) = None
    \<and> events (snd (writer_start e path w)) = None
    \<and> task (snd (writer_start e path w)) = None
    \<and> live (snd (writer_start e path w)) \<subseteq> live w"
proof (cases path)
  case None
  then show ?thesis
    using assms(1) start_cleanup_result[of w]
    by (auto simp add: writer_start_def start_body_null_path start_keeps)
next
  case (Some p)
  have st: "state (snd (writer_start e path w)) = 0"
    using assms start_state[of e path w]
    by (auto simp add: writer_start_def start_ret_def start_body_def Let_def case_prod_beta
        start_keeps)
  have cl: "snd (writer_start e path w) = start_cleanup (snd (start_task e path
      (start_events e (start_mutex e (start_queue e (0, w))))))"
    using assms Some
    by (simp add: writer_start_def start_ret_def start_body_def Let_def case_prod_beta)
  have lv: "live (snd (writer_start e path w)) \<subseteq> live w"
    using assms Some
    by (auto simp add: writer_start_def start_ret_def start_body_idle start_cleanup_result
        xQueueCreate_def xSemaphoreCreateMutex_def xEventGroupCreate_def
        split: option.splits)
  show ?thesis
    using st lv start_cleanup_result unfolding cl by simp
qed

text \<open>\<open>ret\<close> ends at 0 exactly when the path is given, the state is 0 and the four
  creations succeed.\<close>

lemma start_ret_zero_iff:
  "(start_ret e path w = 0)
     = (path \<noteq> None \<and> state w = 0 \<and> queue_create e \<noteq> None \<and> mutex_create e \<noteq> None
        \<and> events_create e \<noteq> None \<and> task_create e \<noteq> None)"
proof (cases "state w = 0")
  case False
  then show ?thesis
    by (simp add: start_ret_def start_body_state_check)
next
  case True
  show ?thesis
  proof (cases path)
    case None
    then show ?thesis
      by (simp add: start_ret_def start_body_null_path)
  next
    case (Some p)
    then show ?thesis
      using True by (auto simp add: start_ret_def start_body_idle split: option.splits)
  qed
qed

section \<open>The claims\<close>

text \<open>
  C1.  The file of a finished session need not hold the pushed bytes.  On a running
  session, with every kernel and card call succeeding, the burst (a buffer of 1s, a buffer
  of 2s, then a 3: \<open>2 * BUFF_SIZE + 1\<close> bytes) is pushed in one call before the task has
  received a command.  The call returns 0 with two commands in the queue, fewer than the
  queue can hold, so the producer never waited; the 3 went into the first buffer, which the
  first command still refers to.  \<open>writer_finish\<close> then returns 0, and the file begins with
  the 3 and not with the 1 the burst begins with.
\<close>
theorem queued_buffer_is_overwritten:
  "fst (writer_push_buf env_ok burst (length burst) None running) = 0
   \<and> length (chan (snd (snd (writer_push_buf env_ok burst (length burst) None running))))
       < QUEUE_LENGTH
   \<and> map_option fst
        (writer_finish env_ok
          (snd (snd (writer_push_buf env_ok burst (length burst) None running))))
       = Some 0
   \<and> map_option (\<lambda>r. map_option hd (card (snd r) ''log.csv''))
        (writer_finish env_ok
          (snd (snd (writer_push_buf env_ok burst (length burst) None running))))
       = Some (Some 3)
   \<and> hd burst = 1"
proof -
  define w3 where "w3 = snd (snd (writer_push_buf env_ok burst (length burst) None running))"
  note f = burst_pushed[folded w3_def]
  have holds: "session_holds ''log.csv'' (in_transit w3) w3"
    using f by (simp add: session_holds_def written_def)
  have hl: "held w3 = []"
    using f by (simp add: held_def)
  obtain w4 where w4: "writer_finish env_ok w3 = Some (0, w4)"
    "card w4 ''log.csv'' = Some (in_transit w3)"
    using finish_delivers[OF env_ok_fields holds] by blast
  have "in_transit w3
    = map (mem w3 buff_plane1) [0..<BUFF_SIZE] @ map (mem w3 buff_plane2) [0..<BUFF_SIZE]
      @ map (mem w3 buff_plane1) [0..<1]"
    using f hl by (simp add: in_transit_def payload_def)
  moreover have "[0..<BUFF_SIZE] = 0 # [1..<BUFF_SIZE]"
    using BUFF_SIZE_pos by (simp add: upt_conv_Cons)
  ultimately have hd3: "hd (in_transit w3) = 3"
    using f by simp
  have q: "length (chan w3) < QUEUE_LENGTH"
    using f by (simp add: QUEUE_LENGTH_def)
  have h1: "hd burst = 1"
    using BUFF_SIZE_pos by (simp add: burst_def hd_append)
  have a: "map_option fst (writer_finish env_ok w3) = Some 0"
    unfolding w4(1) by simp
  have b: "map_option (\<lambda>r. map_option hd (card (snd r) ''log.csv'')) (writer_finish env_ok w3)
    = Some (Some 3)"
    unfolding w4(1) using w4(2) hd3 by simp
  show ?thesis
    using f a b q h1 unfolding w3_def by simp
qed

text \<open>
  C2.  \<open>writer_start\<close> with a null path fails: its local \<^verbatim>\<open>ret\<close> is set to the line of
  the argument check (or of the state check), nothing is allocated and the state is kept.
  The value returned is nevertheless 0, because the function ends in \<^verbatim>\<open>return 0\<close> and
  not in \<^verbatim>\<open>return ret\<close>; and it is 0 for every call.
\<close>
theorem writer_start_returns_zero_on_failure:
  "start_ret e None w \<noteq> 0
   \<and> state (snd (writer_start e None w)) = state w
   \<and> fst (writer_start e None w) = 0
   \<and> fst (writer_start e path w) = 0"
  by (simp add: start_ret_def start_body_null_path writer_start_def start_keeps)

text \<open>
  C3.  \<open>writer_finish\<close> before any \<open>writer_start\<close>, the take of the mutex answering
  \<^verbatim>\<open>pdTRUE\<close>.  The state is 0, but the state check stands under \<^verbatim>\<open>if (ret)\<close> and is
  skipped: \<^verbatim>\<open>ret\<close> is still 0 after it, the \<^verbatim>\<open>OP_EXIT\<close> command is sent, and the call
  waits for a completion that no task will signal.  With a failing take the check is
  reached and only changes the error from 424 to 431.
\<close>
theorem finish_skips_state_check:
  "state boot = 0
   \<and> fst (finish_send env_ok boot) = 0
   \<and> chan (snd (finish_send env_ok boot))
       = [\<lparr>cmd_op = OP_EXIT, cmd_data = buff_plane1, cmd_size = 0\<rparr>]
   \<and> writer_finish env_ok boot = None
   \<and> fst (finish_send env_no_take boot) = 431
   \<and> fst (finish_send env_no_take running) = 424"
  by (simp add: finish_send_def writer_finish_def xQueueSend_def xEventGroupWaitBits_def
      task_run_def boot_def env_ok_def env_no_take_def running_fields Let_def)

text \<open>
  C4.  A second \<open>writer_start\<close> on a running session.  The first session holds the queue 1,
  the mutex 2, the event group 3 and the task 4.  The second call fails its state check
  (\<^verbatim>\<open>ret\<close> is 175), and the clean-up that follows deletes the four objects of the first
  session and sets the four handles to \<^verbatim>\<open>NULL\<close>, while \<^verbatim>\<open>state\<close> stays 1; the call
  returns 0.
\<close>
theorem second_start_deletes_first_session:
  "state running = 1 \<and> queue running = Some 1 \<and> mutex running = Some 2
   \<and> events running = Some 3 \<and> task running = Some 4 \<and> live running = {1, 2, 3, 4}
   \<and> t_pc running = At_open
   \<and> start_ret env_ok (Some ''other.csv'') running = 175
   \<and> fst (writer_start env_ok (Some ''other.csv'') running) = 0
   \<and> state (snd (writer_start env_ok (Some ''other.csv'') running)) = 1
   \<and> queue (snd (writer_start env_ok (Some ''other.csv'') running)) = None
   \<and> mutex (snd (writer_start env_ok (Some ''other.csv'') running)) = None
   \<and> events (snd (writer_start env_ok (Some ''other.csv'') running)) = None
   \<and> task (snd (writer_start env_ok (Some ''other.csv'') running)) = None
   \<and> live (snd (writer_start env_ok (Some ''other.csv'') running)) = {}
   \<and> t_pc (snd (writer_start env_ok (Some ''other.csv'') running)) = Task_done"
proof -
  have a: "start_body env_ok (Some ''other.csv'') running = (175, start_cleanup running)"
    by (rule start_body_state_check) (simp add: running_fields)
  have b: "live (start_cleanup running) = {}"
    by (auto simp add: start_cleanup_def vQueueDelete_def vSemaphoreDelete_def
        vEventGroupDelete_def vTaskDelete_def running_fields running_live)
  have c: "state (start_cleanup running) = 1 \<and> queue (start_cleanup running) = None
    \<and> mutex (start_cleanup running) = None \<and> events (start_cleanup running) = None
    \<and> task (start_cleanup running) = None \<and> t_pc (start_cleanup running) = Task_done"
    by (simp add: start_cleanup_def vQueueDelete_def vSemaphoreDelete_def
        vEventGroupDelete_def vTaskDelete_def running_fields)
  show ?thesis
    using a b c by (simp add: writer_start_def start_ret_def running_fields running_live)
qed

text \<open>
  C5 as stated fails: after the successful \<open>writer_finish\<close> of a running session the state
  is 0, not 2.
\<close>
theorem finish_state_counterexample:
  "map_option fst (writer_finish env_ok running) = Some 0
   \<and> map_option (state \<circ> snd) (writer_finish env_ok running) = Some 0"
  using finish_running by simp

text \<open>
  C5, amended.  After a successful \<open>writer_finish\<close> the state is 0 (Idle; the value 2 is
  assigned and overwritten before the function returns), the queue, the mutex and the event
  group the session held are deleted, the four handles are \<^verbatim>\<open>NULL\<close>, the active buffer
  is the first buffer and \<open>used\<close> is 0.  \<open>writer_start\<close> changes the state only from 0 to 1:
  it leaves a state of 2 as it is, and after the finish a new start whose creations succeed
  sets the state to 1 again.
\<close>
theorem finish_success_resets_to_idle:
  assumes "writer_finish e w = Some (0, w')"
  shows "state w' = 0 \<and> queue w' = None \<and> mutex w' = None \<and> events w' = None
    \<and> task w' = None \<and> cur_buff w' = buff_plane1 \<and> used w' = 0
    \<and> live w' \<inter> (set_option (queue w) \<union> set_option (mutex w) \<union> set_option (events w)) = {}
    \<and> (state v = 2 \<longrightarrow> state (snd (writer_start e2 p v)) = 2)
    \<and> (state (snd (writer_start e2 p v)) = state v
        \<or> (state v = 0 \<and> state (snd (writer_start e2 p v)) = 1))
    \<and> (queue_create e2 \<noteq> None \<and> mutex_create e2 \<noteq> None \<and> events_create e2 \<noteq> None
        \<and> task_create e2 \<noteq> None
        \<longrightarrow> state (snd (writer_start e2 (Some q) w')) = 1)"
proof -
  obtain r w1 where fs: "finish_send e w = (r, w1)"
    by (cases "finish_send e w")
  have st: "mutex w1 = mutex w \<and> queue w1 = queue w \<and> events w1 = events w"
    using finish_send_statics[of e w] fs by simp
  have main: "state w' = 0 \<and> queue w' = None \<and> mutex w' = None \<and> events w' = None
    \<and> task w' = None \<and> cur_buff w' = buff_plane1 \<and> used w' = 0
    \<and> live w' \<inter> (set_option (queue w) \<union> set_option (mutex w) \<union> set_option (events w)) = {}"
  proof (cases "r = 0")
    case True
    then obtain w2 where wt: "xEventGroupWaitBits e w1 = Some w2"
      and fr: "finish_release 0 w2 = (0, w')"
      using assms fs by (auto simp add: writer_finish_def split: option.splits)
    have "mutex w2 = mutex w \<and> queue w2 = queue w \<and> events w2 = events w"
      using wait_statics[OF wt] st by simp
    then show ?thesis
      using finish_release_ok[OF fr] by auto
  next
    case False
    then have "fst (finish_release r w1) \<noteq> 0"
      by (simp add: finish_release_def)
    then show ?thesis
      using assms fs False by (auto simp add: writer_finish_def)
  qed
  have s2: "state v = 2 \<longrightarrow> state (snd (writer_start e2 p v)) = 2"
    using start_state[of e2 p v] by auto
  have again: "queue_create e2 \<noteq> None \<and> mutex_create e2 \<noteq> None \<and> events_create e2 \<noteq> None
        \<and> task_create e2 \<noteq> None
        \<longrightarrow> state (snd (writer_start e2 (Some q) w')) = 1"
  proof
    assume "queue_create e2 \<noteq> None \<and> mutex_create e2 \<noteq> None \<and> events_create e2 \<noteq> None
        \<and> task_create e2 \<noteq> None"
    then obtain hq hm he ht where "queue_create e2 = Some hq" "mutex_create e2 = Some hm"
      "events_create e2 = Some he" "task_create e2 = Some ht"
      by auto
    then show "state (snd (writer_start e2 (Some q) w')) = 1"
      using start_success[of w' e2 hq hm he ht q] main by simp
  qed
  show ?thesis
    using main s2 start_state[of e2 p v] again by blast
qed

theorem finish_success_resets_to_idle_witness:
  "writer_finish env_ok running = Some (0, snd (the (writer_finish env_ok running)))
   \<and> state (snd (the (writer_finish env_ok running))) = 0
   \<and> queue (snd (the (writer_finish env_ok running))) = None
   \<and> cur_buff (snd (the (writer_finish env_ok running))) = buff_plane1
   \<and> used (snd (the (writer_finish env_ok running))) = 0
   \<and> 1 \<notin> live (snd (the (writer_finish env_ok running)))
   \<and> state (running\<lparr>state := 2\<rparr>) = 2
   \<and> state (snd (writer_start env_ok (Some ''log.csv'') (running\<lparr>state := 2\<rparr>))) = 2
   \<and> state (snd (writer_start env_ok (Some ''next.csv'')
               (snd (the (writer_finish env_ok running))))) = 1"
proof -
  have a: "writer_finish env_ok running = Some (0, snd (the (writer_finish env_ok running)))"
    using finish_running by (cases "writer_finish env_ok running") auto
  show ?thesis
    using a finish_success_resets_to_idle[OF a, of "running\<lparr>state := 2\<rparr>" env_ok "Some ''log.csv''"
        "''next.csv''"]
    by (auto simp add: running_fields env_ok_def)
qed

text \<open>
  C6.  On a running session with an empty active buffer, where the mutex is taken and the
  sends to the queue succeed, a raw-buffer push of \<open>sz\<close> bytes succeeds and
  \<^item> for \<open>sz = BUFF_SIZE\<close> reports the edge \<open>True\<close>, after exactly one rotation: one send, one
    \<^verbatim>\<open>OP_FLUSH\<close> command of a full buffer added to the queue, \<open>used\<close> back at 0;
  \<^item> for \<open>sz = BUFF_SIZE - 1\<close> reports the edge \<open>False\<close>, after no rotation: no send, the
    queue as before, \<open>used = BUFF_SIZE - 1\<close>;
  \<^item> for \<open>sz = 2 * BUFF_SIZE + 5\<close> reports the edge \<open>True\<close>, after exactly two rotations: two
    sends, two \<^verbatim>\<open>OP_FLUSH\<close> commands added, \<open>used = 5\<close>.
\<close>
theorem rotation_threshold:
  assumes "sem_take e" and "\<forall>k. queue_send e k" and "state w = 1" and "used w = 0"
    and "sz \<le> length src"
  shows "(sz = BUFF_SIZE \<longrightarrow>
      fst (writer_push_buf e src sz (Some v) w) = 0
      \<and> fst (snd (writer_push_buf e src sz (Some v) w)) = Some True
      \<and> n_sends (snd (snd (writer_push_buf e src sz (Some v) w))) = n_sends w + 1
      \<and> used (snd (snd (writer_push_buf e src sz (Some v) w))) = 0
      \<and> (\<exists>c. chan (snd (snd (writer_push_buf e src sz (Some v) w))) = chan w @ [c]
            \<and> cmd_op c = OP_FLUSH \<and> cmd_size c = BUFF_SIZE))
    \<and> (sz = BUFF_SIZE - 1 \<longrightarrow>
      fst (writer_push_buf e src sz (Some v) w) = 0
      \<and> fst (snd (writer_push_buf e src sz (Some v) w)) = Some False
      \<and> n_sends (snd (snd (writer_push_buf e src sz (Some v) w))) = n_sends w
      \<and> used (snd (snd (writer_push_buf e src sz (Some v) w))) = BUFF_SIZE - 1
      \<and> chan (snd (snd (writer_push_buf e src sz (Some v) w))) = chan w)
    \<and> (sz = 2 * BUFF_SIZE + 5 \<longrightarrow>
      fst (writer_push_buf e src sz (Some v) w) = 0
      \<and> fst (snd (writer_push_buf e src sz (Some v) w)) = Some True
      \<and> n_sends (snd (snd (writer_push_buf e src sz (Some v) w))) = n_sends w + 2
      \<and> used (snd (snd (writer_push_buf e src sz (Some v) w))) = 5
      \<and> (\<exists>c d. chan (snd (snd (writer_push_buf e src sz (Some v) w))) = chan w @ [c, d]
            \<and> cmd_op c = OP_FLUSH \<and> cmd_size c = BUFF_SIZE
            \<and> cmd_op d = OP_FLUSH \<and> cmd_size d = BUFF_SIZE))"
proof -
  have one: "sz = BUFF_SIZE \<longrightarrow>
      fst (writer_push_buf e src sz (Some v) w) = 0
      \<and> fst (snd (writer_push_buf e src sz (Some v) w)) = Some True
      \<and> n_sends (snd (snd (writer_push_buf e src sz (Some v) w))) = n_sends w + 1
      \<and> used (snd (snd (writer_push_buf e src sz (Some v) w))) = 0
      \<and> (\<exists>c. chan (snd (snd (writer_push_buf e src sz (Some v) w))) = chan w @ [c]
            \<and> cmd_op c = OP_FLUSH \<and> cmd_size c = BUFF_SIZE)"
  proof
    assume sz: "sz = BUFF_SIZE"
    show "fst (writer_push_buf e src sz (Some v) w) = 0
      \<and> fst (snd (writer_push_buf e src sz (Some v) w)) = Some True
      \<and> n_sends (snd (snd (writer_push_buf e src sz (Some v) w))) = n_sends w + 1
      \<and> used (snd (snd (writer_push_buf e src sz (Some v) w))) = 0
      \<and> (\<exists>c. chan (snd (snd (writer_push_buf e src sz (Some v) w))) = chan w @ [c]
            \<and> cmd_op c = OP_FLUSH \<and> cmd_size c = BUFF_SIZE)"
      using push_full_buffer[OF assms(1-4), of src v] assms(5) unfolding sz by simp
  qed
  have none: "sz = BUFF_SIZE - 1 \<longrightarrow>
      fst (writer_push_buf e src sz (Some v) w) = 0
      \<and> fst (snd (writer_push_buf e src sz (Some v) w)) = Some False
      \<and> n_sends (snd (snd (writer_push_buf e src sz (Some v) w))) = n_sends w
      \<and> used (snd (snd (writer_push_buf e src sz (Some v) w))) = BUFF_SIZE - 1
      \<and> chan (snd (snd (writer_push_buf e src sz (Some v) w))) = chan w"
  proof
    assume sz: "sz = BUFF_SIZE - 1"
    show "fst (writer_push_buf e src sz (Some v) w) = 0
      \<and> fst (snd (writer_push_buf e src sz (Some v) w)) = Some False
      \<and> n_sends (snd (snd (writer_push_buf e src sz (Some v) w))) = n_sends w
      \<and> used (snd (snd (writer_push_buf e src sz (Some v) w))) = BUFF_SIZE - 1
      \<and> chan (snd (snd (writer_push_buf e src sz (Some v) w))) = chan w"
      using push_short_of_full[OF assms(1-4), of src v] assms(5) unfolding sz by simp
  qed
  have two: "sz = 2 * BUFF_SIZE + 5 \<longrightarrow>
      fst (writer_push_buf e src sz (Some v) w) = 0
      \<and> fst (snd (writer_push_buf e src sz (Some v) w)) = Some True
      \<and> n_sends (snd (snd (writer_push_buf e src sz (Some v) w))) = n_sends w + 2
      \<and> used (snd (snd (writer_push_buf e src sz (Some v) w))) = 5
      \<and> (\<exists>c d. chan (snd (snd (writer_push_buf e src sz (Some v) w))) = chan w @ [c, d]
            \<and> cmd_op c = OP_FLUSH \<and> cmd_size c = BUFF_SIZE
            \<and> cmd_op d = OP_FLUSH \<and> cmd_size d = BUFF_SIZE)"
  proof
    assume sz: "sz = 2 * BUFF_SIZE + 5"
    show "fst (writer_push_buf e src sz (Some v) w) = 0
      \<and> fst (snd (writer_push_buf e src sz (Some v) w)) = Some True
      \<and> n_sends (snd (snd (writer_push_buf e src sz (Some v) w))) = n_sends w + 2
      \<and> used (snd (snd (writer_push_buf e src sz (Some v) w))) = 5
      \<and> (\<exists>c d. chan (snd (snd (writer_push_buf e src sz (Some v) w))) = chan w @ [c, d]
            \<and> cmd_op c = OP_FLUSH \<and> cmd_size c = BUFF_SIZE
            \<and> cmd_op d = OP_FLUSH \<and> cmd_size d = BUFF_SIZE)"
      using push_two_buffers_and_five[OF assms(1-4), of src v] assms(5) unfolding sz by simp
  qed
  show ?thesis
    by (rule conjI[OF one conjI[OF none two]])
qed

theorem rotation_threshold_witness:
  "fst (writer_push_buf env_ok (replicate 16384 7) 16384 (Some False) running) = 0
   \<and> fst (snd (writer_push_buf env_ok (replicate 16384 7) 16384 (Some False) running)) = Some True
   \<and> n_sends (snd (snd (writer_push_buf env_ok (replicate 16384 7) 16384 (Some False) running))) = 1
   \<and> fst (snd (writer_push_buf env_ok (replicate 16383 7) 16383 (Some False) running)) = Some False
   \<and> n_sends (snd (snd (writer_push_buf env_ok (replicate 16383 7) 16383 (Some False) running))) = 0
   \<and> fst (snd (writer_push_buf env_ok (replicate 32773 7) 32773 (Some False) running)) = Some True
   \<and> n_sends (snd (snd (writer_push_buf env_ok (replicate 32773 7) 32773 (Some False) running))) = 2
   \<and> used (snd (snd (writer_push_buf env_ok (replicate 32773 7) 32773 (Some False) running))) = 5"
proof -
  have h1: "sem_take env_ok" and h2: "\<forall>k. queue_send env_ok k"
    by (simp_all add: env_ok_def)
  have h3: "state running = 1" and h4: "used running = 0"
    by (simp_all add: running_fields)
  have l1: "16384 \<le> length (replicate 16384 (7::byte))"
    and l2: "16383 \<le> length (replicate 16383 (7::byte))"
    and l3: "32773 \<le> length (replicate 32773 (7::byte))"
    by simp_all
  show ?thesis
    using rotation_threshold[OF h1 h2 h3 h4 l1, of False]
      rotation_threshold[OF h1 h2 h3 h4 l2, of False]
      rotation_threshold[OF h1 h2 h3 h4 l3, of False]
    by (simp add: BUFF_SIZE_def running_fields)
qed

text \<open>
  C7.  The writer task and a recorded error.
  \<^item> The error is recorded when the open fails, when a write answers another count than
    requested, and when the sync after a complete write fails.
  \<^item> Once the task is in its loop with the error recorded (waiting for a command, or
    holding one), whatever the producer pushes and however many commands the task receives
    afterwards, the error stays recorded, the card is unchanged, and no call is made on the
    file except the final close.
  \<^item> In that state the task still takes the next command from the queue and handles it; on
    \<^verbatim>\<open>OP_EXIT\<close> it leaves the loop, closes the file, sets the completion bit and ends, and
    on \<^verbatim>\<open>OP_FLUSH\<close> it goes back to receive.
\<close>
theorem recorded_error_stops_writes:
  "(\<not> sd_open e \<longrightarrow> t_error (task_open e w))
   \<and> (\<not> t_error w \<and> 0 < cmd_size c \<and> sd_write e (length (sd_log w)) (cmd_size c) \<noteq> cmd_size c
        \<longrightarrow> t_error (task_command e c w))
   \<and> (\<not> t_error w \<and> 0 < cmd_size c \<and> sd_write e (length (sd_log w)) (cmd_size c) = cmd_size c
        \<and> \<not> sd_sync e (Suc (length (sd_log w)))
        \<longrightarrow> t_error (task_command e c w))
   \<and> ((t_pc w = At_receive \<or> t_pc w = At_write) \<and> t_error w \<and> run e evs w = Some w'
        \<longrightarrow> t_error w' \<and> card w' = card w
            \<and> ((sd_log w' = sd_log w \<and> (t_pc w' = At_receive \<or> t_pc w' = At_write))
                \<or> (sd_log w' = sd_log w @ [SD_close] \<and> t_pc w' = Task_done \<and> ev_complete w')))
   \<and> (t_pc w = At_receive \<and> t_error w \<and> chan w = c # rest
        \<longrightarrow> task_step e w = Some (task_receive c rest w)
            \<and> task_step e (task_receive c rest w)
                = Some (if cmd_op c = OP_EXIT then task_exit (task_receive c rest w)
                        else (task_receive c rest w)\<lparr>t_pc := At_receive\<rparr>)
            \<and> run e [Task, Task] w = task_step e (task_receive c rest w)
            \<and> chan (the (run e [Task, Task] w)) = rest
            \<and> (if cmd_op c = OP_EXIT
                then t_pc (the (run e [Task, Task] w)) = Task_done
                     \<and> ev_complete (the (run e [Task, Task] w))
                     \<and> sd_log (the (run e [Task, Task] w)) = sd_log w @ [SD_close]
                else t_pc (the (run e [Task, Task] w)) = At_receive
                     \<and> sd_log (the (run e [Task, Task] w)) = sd_log w))"
proof -
  have a: "\<not> sd_open e \<longrightarrow> t_error (task_open e w)"
    by (simp add: task_open_def)
  have b: "\<not> t_error w \<and> 0 < cmd_size c
        \<and> sd_write e (length (sd_log w)) (cmd_size c) \<noteq> cmd_size c
        \<longrightarrow> t_error (task_command e c w)"
    by (simp add: task_defs Let_def)
  have c: "\<not> t_error w \<and> 0 < cmd_size c
        \<and> sd_write e (length (sd_log w)) (cmd_size c) = cmd_size c
        \<and> \<not> sd_sync e (Suc (length (sd_log w)))
        \<longrightarrow> t_error (task_command e c w)"
    by (simp add: task_defs Let_def)
  have d: "(t_pc w = At_receive \<or> t_pc w = At_write) \<and> t_error w \<and> run e evs w = Some w'
        \<longrightarrow> t_error w' \<and> card w' = card w
            \<and> ((sd_log w' = sd_log w \<and> (t_pc w' = At_receive \<or> t_pc w' = At_write))
                \<or> (sd_log w' = sd_log w @ [SD_close] \<and> t_pc w' = Task_done \<and> ev_complete w'))"
    using run_in_error[of e evs w w' "card w" "sd_log w"] by blast
  have f: "t_pc w = At_receive \<and> t_error w \<and> chan w = c # rest
        \<longrightarrow> task_step e w = Some (task_receive c rest w)
            \<and> task_step e (task_receive c rest w)
                = Some (if cmd_op c = OP_EXIT then task_exit (task_receive c rest w)
                        else (task_receive c rest w)\<lparr>t_pc := At_receive\<rparr>)
            \<and> run e [Task, Task] w = task_step e (task_receive c rest w)
            \<and> chan (the (run e [Task, Task] w)) = rest
            \<and> (if cmd_op c = OP_EXIT
                then t_pc (the (run e [Task, Task] w)) = Task_done
                     \<and> ev_complete (the (run e [Task, Task] w))
                     \<and> sd_log (the (run e [Task, Task] w)) = sd_log w @ [SD_close]
                else t_pc (the (run e [Task, Task] w)) = At_receive
                     \<and> sd_log (the (run e [Task, Task] w)) = sd_log w)"
  proof
    assume h: "t_pc w = At_receive \<and> t_error w \<and> chan w = c # rest"
    define r where "r = task_receive c rest w"
    have rf: "t_pc r = At_write \<and> t_cmd r = c \<and> t_error r \<and> chan r = rest
      \<and> sd_log r = sd_log w"
      using h by (simp add: r_def task_receive_def)
    have s1: "task_step e w = Some r"
      using h by (simp add: task_step_def r_def)
    have s2: "task_step e r
      = Some (if cmd_op c = OP_EXIT then task_exit r else r\<lparr>t_pc := At_receive\<rparr>)"
      using rf by (simp add: task_step_def task_command_in_error)
    have rn: "run e [Task, Task] w = task_step e r"
      using s1 by (simp add: exec_def split: option.splits)
    show "task_step e w = Some (task_receive c rest w)
            \<and> task_step e (task_receive c rest w)
                = Some (if cmd_op c = OP_EXIT then task_exit (task_receive c rest w)
                        else (task_receive c rest w)\<lparr>t_pc := At_receive\<rparr>)
            \<and> run e [Task, Task] w = task_step e (task_receive c rest w)
            \<and> chan (the (run e [Task, Task] w)) = rest
            \<and> (if cmd_op c = OP_EXIT
                then t_pc (the (run e [Task, Task] w)) = Task_done
                     \<and> ev_complete (the (run e [Task, Task] w))
                     \<and> sd_log (the (run e [Task, Task] w)) = sd_log w @ [SD_close]
                else t_pc (the (run e [Task, Task] w)) = At_receive
                     \<and> sd_log (the (run e [Task, Task] w)) = sd_log w)"
      unfolding rn r_def[symmetric] s2 using s1 rf by (simp add: task_exit_def)
  qed
  show ?thesis
    by (rule conjI[OF a conjI[OF b conjI[OF c conjI[OF d f]]]])
qed

theorem recorded_error_stops_writes_witness:
  "\<not> sd_open env_no_open
   \<and> t_pc (task_open env_no_open running) = At_receive
   \<and> t_error (task_open env_no_open running)
   \<and> run env_no_open [Push 5] (task_open env_no_open running)
       = Some (snd (snd (writer_push_u8 env_no_open 5 None (task_open env_no_open running))))
   \<and> t_error (snd (snd (writer_push_u8 env_no_open 5 None (task_open env_no_open running))))
   \<and> card (snd (snd (writer_push_u8 env_no_open 5 None (task_open env_no_open running))))
       = Map.empty
   \<and> sd_log (snd (snd (writer_push_u8 env_no_open 5 None (task_open env_no_open running))))
       = [SD_open ''log.csv'' False]
   \<and> chan (snd (finish_send env_no_open (task_open env_no_open running)))
       = [\<lparr>cmd_op = OP_EXIT, cmd_data = buff_plane1, cmd_size = 0\<rparr>]
   \<and> t_pc (the (run env_no_open [Task, Task]
              (snd (finish_send env_no_open (task_open env_no_open running)))))
       = Task_done
   \<and> ev_complete (the (run env_no_open [Task, Task]
              (snd (finish_send env_no_open (task_open env_no_open running)))))
   \<and> sd_log (the (run env_no_open [Task, Task]
              (snd (finish_send env_no_open (task_open env_no_open running)))))
       = [SD_open ''log.csv'' False, SD_close]"
proof -
  have r: "run env_no_open [Push 5] (task_open env_no_open running)
       = Some (snd (snd (writer_push_u8 env_no_open 5 None (task_open env_no_open running))))"
    by (simp add: exec_def)
  have p: "t_pc (snd (snd (writer_push_u8 env_no_open 5 None (task_open env_no_open running))))
       = At_receive"
    using writer_push_u8_task_fields[of env_no_open 5 None "task_open env_no_open running"]
      poisoned_fields by simp
  have n: "\<not> sd_open env_no_open"
    by (simp add: env_no_open_def env_ok_def)
  have a: "t_error (snd (snd (writer_push_u8 env_no_open 5 None (task_open env_no_open running))))
   \<and> card (snd (snd (writer_push_u8 env_no_open 5 None (task_open env_no_open running))))
       = Map.empty
   \<and> sd_log (snd (snd (writer_push_u8 env_no_open 5 None (task_open env_no_open running))))
       = [SD_open ''log.csv'' False]"
    using recorded_error_stops_writes
        [where e = env_no_open and w = "task_open env_no_open running" and evs = "[Push 5]"
           and w' = "snd (snd (writer_push_u8 env_no_open 5 None (task_open env_no_open running)))"]
      r p poisoned_fields
    by simp
  have b: "t_pc (the (run env_no_open [Task, Task]
              (snd (finish_send env_no_open (task_open env_no_open running)))))
       = Task_done
   \<and> ev_complete (the (run env_no_open [Task, Task]
              (snd (finish_send env_no_open (task_open env_no_open running)))))
   \<and> sd_log (the (run env_no_open [Task, Task]
              (snd (finish_send env_no_open (task_open env_no_open running)))))
       = [SD_open ''log.csv'' False, SD_close]"
    using poisoned_exit_fields recorded_error_stops_writes
        [where e = env_no_open
           and w = "snd (finish_send env_no_open (task_open env_no_open running))"
           and c = "\<lparr>cmd_op = OP_EXIT, cmd_data = buff_plane1, cmd_size = 0\<rparr>" and rest = "[]"
           and evs = "[]"
           and w' = "snd (finish_send env_no_open (task_open env_no_open running))"]
    by (simp del: run.simps cong: conj_cong)
  show ?thesis
    by (intro conjI n r conjunct1[OF a] conjunct1[OF conjunct2[OF a]]
        conjunct2[OF conjunct2[OF a]] conjunct1[OF b] conjunct1[OF conjunct2[OF b]]
        conjunct2[OF conjunct2[OF b]])
       (simp_all add: poisoned_fields poisoned_exit_fields)
qed

text \<open>
  C8.  The three push forms do the same thing to bytes of different shape.  Each overload,
  seen from the caller (success or failure, the edge flag, the state), equals the push of
  the specification on its input bytes: the first \<open>sz\<close> bytes of the raw buffer, the bytes
  of the string before its first NUL, the single byte.  The push of the specification is
  repeated single-byte append, with the edge accumulated by OR and the loop stopped at the
  first failing append.  (The overloads differ in the non-zero value they return on failure,
  which is the line number of the failing check.)
\<close>
theorem push_forms_refine_spec_push:
  "outcome (writer_push_buf e src sz dst w) = spec_push e (take sz src) dst w
   \<and> outcome (writer_push_str e s dst w) = spec_push e (takeWhile (\<lambda>c. c \<noteq> 0) s) dst w
   \<and> outcome (writer_push_u8 e b dst w) = spec_push e [b] dst w"
proof -
  have a: "outcome (writer_push_buf e src sz dst w) = spec_push e (take sz src) dst w"
    by (auto simp add: outcome_def spec_push_def writer_push_buf_unfold push_buf_loop_spec
        case_prod_beta)
  have b: "outcome (writer_push_str e s dst w) = spec_push e (takeWhile (\<lambda>c. c \<noteq> 0) s) dst w"
    by (auto simp add: outcome_def spec_push_def writer_push_str_unfold push_str_loop_spec
        case_prod_beta)
  have c: "outcome (writer_push_u8 e b dst w) = spec_push e [b] dst w"
    by (auto simp add: outcome_def spec_push_def spec_append_def writer_push_u8_unfold
        case_prod_beta)
  show ?thesis using a b c by simp
qed

text \<open>
  C9.  The buffer pair is in order initially and every operation keeps it so: if before the operation the active
  buffer is one of the two arrays and the cursor is below the capacity, the same holds
  after \<open>push_byte\<close> (whether or not the send of the full buffer succeeds), after each of
  the three pushes, after \<open>writer_start\<close>, after a step of the writer task and after
  \<open>writer_finish\<close> when it returns.
\<close>
theorem operations_keep_buffers_ok:
  assumes "buffers_ok w"
  shows "buffers_ok boot
    \<and> buffers_ok (snd (snd (push_byte e b flag w)))
    \<and> buffers_ok (snd (snd (writer_push_u8 e b dst w)))
    \<and> buffers_ok (snd (snd (writer_push_str e s dst w)))
    \<and> buffers_ok (snd (snd (writer_push_buf e src sz dst w)))
    \<and> buffers_ok (snd (writer_start e path w))
    \<and> (\<forall>w'. task_step e w = Some w' \<longrightarrow> buffers_ok w')
    \<and> (\<forall>r w'. writer_finish e w = Some (r, w') \<longrightarrow> buffers_ok w')"
proof -
  have t: "\<forall>w'. task_step e w = Some w' \<longrightarrow> buffers_ok w'"
    using assms task_step_buffers[of e w] by (auto simp add: buffers_ok_def)
  have f: "\<forall>r w'. writer_finish e w = Some (r, w') \<longrightarrow> buffers_ok w'"
  proof (intro allI impI)
    fix r w'
    assume fin: "writer_finish e w = Some (r, w')"
    obtain r1 w1 where fs: "finish_send e w = (r1, w1)"
      by (cases "finish_send e w")
    have ok1: "buffers_ok w1"
      using assms finish_send_statics[of e w] fs by (simp add: buffers_ok_def)
    show "buffers_ok w'"
    proof (cases "r1 = 0")
      case True
      then obtain w2 where wt: "xEventGroupWaitBits e w1 = Some w2"
        and fr: "finish_release r1 w2 = (r, w')"
        using fin fs by (auto simp add: writer_finish_def split: option.splits)
      have "buffers_ok w2"
        using ok1 wait_statics[OF wt] by (simp add: buffers_ok_def)
      then show ?thesis
        using finish_release_buffers_ok[of w2 r1] fr by simp
    next
      case False
      then have "finish_release r1 w1 = (r, w')"
        using fin fs by (simp add: writer_finish_def)
      then show ?thesis
        using finish_release_buffers_ok[OF ok1, of r1] by simp
    qed
  qed
  have st: "buffers_ok (snd (writer_start e path w))"
    using assms start_buffers[of e path w] by (simp add: buffers_ok_def)
  have b0: "buffers_ok boot"
    by (simp add: buffers_ok_def boot_def BUFF_SIZE_def)
  show ?thesis
    using b0 t f st push_byte_buffers_ok[OF assms] writer_push_u8_buffers_ok[OF assms]
      writer_push_str_buffers_ok[OF assms] writer_push_buf_buffers_ok[OF assms]
    by blast
qed

text \<open>The last byte of a buffer is pushed while its send fails: the buffer is rotated all
  the same.\<close>
theorem operations_keep_buffers_ok_witness:
  "buffers_ok (running\<lparr>used := 16383\<rparr>)
   \<and> fst (push_byte env_no_send 7 False (running\<lparr>used := 16383\<rparr>)) = 134
   \<and> used (snd (snd (push_byte env_no_send 7 False (running\<lparr>used := 16383\<rparr>)))) = 0
   \<and> cur_buff (snd (snd (push_byte env_no_send 7 False (running\<lparr>used := 16383\<rparr>)))) = buff_plane2
   \<and> buffers_ok (snd (snd (push_byte env_no_send 7 False (running\<lparr>used := 16383\<rparr>))))"
proof -
  have ok: "buffers_ok (running\<lparr>used := 16383\<rparr>)"
    by (simp add: buffers_ok_def running_def start_buffers boot_def BUFF_SIZE_def)
  have c: "cur_buff running = buff_plane1"
    by (simp add: running_def start_buffers boot_def)
  show ?thesis
    using ok c operations_keep_buffers_ok[OF ok, of env_no_send 7 False]
    by (simp add: push_byte_def xQueueSend_def env_no_send_def env_ok_def BUFF_SIZE_def Let_def)
qed

text \<open>
  C10.  In each of the three pushes the caller's edge flag is written only when the call
  succeeds and the pointer is not null: when the call fails (for the take of the mutex,
  the state or the queue) the flag is as before; with a null pointer the call returns the
  same value and leaves the same state as with any other pointer, and there is no flag;
  when the call succeeds with a pointer, the flag holds the edge the loop accumulated.
\<close>
theorem edge_flag_written_only_on_success:
  "(fst (writer_push_u8 e b dst w) \<noteq> 0 \<longrightarrow> fst (snd (writer_push_u8 e b dst w)) = dst)
   \<and> fst (snd (writer_push_u8 e b None w)) = None
   \<and> fst (writer_push_u8 e b None w) = fst (writer_push_u8 e b dst w)
   \<and> snd (snd (writer_push_u8 e b None w)) = snd (snd (writer_push_u8 e b dst w))
   \<and> (fst (writer_push_u8 e b (Some v) w) = 0 \<longrightarrow>
        fst (snd (writer_push_u8 e b (Some v) w)) = Some (fst (snd (push_byte e b False w))))
   \<and> (fst (writer_push_str e s dst w) \<noteq> 0 \<longrightarrow> fst (snd (writer_push_str e s dst w)) = dst)
   \<and> fst (snd (writer_push_str e s None w)) = None
   \<and> fst (writer_push_str e s None w) = fst (writer_push_str e s dst w)
   \<and> snd (snd (writer_push_str e s None w)) = snd (snd (writer_push_str e s dst w))
   \<and> (fst (writer_push_str e s (Some v) w) = 0 \<longrightarrow>
        fst (snd (writer_push_str e s (Some v) w))
          = Some (fst (snd (push_str_loop e s False w))))
   \<and> (fst (writer_push_buf e src sz dst w) \<noteq> 0 \<longrightarrow>
        fst (snd (writer_push_buf e src sz dst w)) = dst)
   \<and> fst (snd (writer_push_buf e src sz None w)) = None
   \<and> fst (writer_push_buf e src sz None w) = fst (writer_push_buf e src sz dst w)
   \<and> snd (snd (writer_push_buf e src sz None w)) = snd (snd (writer_push_buf e src sz dst w))
   \<and> (fst (writer_push_buf e src sz (Some v) w) = 0 \<longrightarrow>
        fst (snd (writer_push_buf e src sz (Some v) w))
          = Some (fst (snd (push_buf_loop e (take sz src) False w))))"
proof -
  have a: "(fst (writer_push_u8 e b dst w) \<noteq> 0 \<longrightarrow> fst (snd (writer_push_u8 e b dst w)) = dst)
   \<and> fst (snd (writer_push_u8 e b None w)) = None
   \<and> fst (writer_push_u8 e b None w) = fst (writer_push_u8 e b dst w)
   \<and> snd (snd (writer_push_u8 e b None w)) = snd (snd (writer_push_u8 e b dst w))
   \<and> (fst (writer_push_u8 e b (Some v) w) = 0 \<longrightarrow>
        fst (snd (writer_push_u8 e b (Some v) w)) = Some (fst (snd (push_byte e b False w))))"
    by (simp add: writer_push_u8_unfold case_prod_beta)
  have b: "(fst (writer_push_str e s dst w) \<noteq> 0 \<longrightarrow> fst (snd (writer_push_str e s dst w)) = dst)
   \<and> fst (snd (writer_push_str e s None w)) = None
   \<and> fst (writer_push_str e s None w) = fst (writer_push_str e s dst w)
   \<and> snd (snd (writer_push_str e s None w)) = snd (snd (writer_push_str e s dst w))
   \<and> (fst (writer_push_str e s (Some v) w) = 0 \<longrightarrow>
        fst (snd (writer_push_str e s (Some v) w))
          = Some (fst (snd (push_str_loop e s False w))))"
    by (simp add: writer_push_str_unfold case_prod_beta)
  have c: "(fst (writer_push_buf e src sz dst w) \<noteq> 0 \<longrightarrow>
        fst (snd (writer_push_buf e src sz dst w)) = dst)
   \<and> fst (snd (writer_push_buf e src sz None w)) = None
   \<and> fst (writer_push_buf e src sz None w) = fst (writer_push_buf e src sz dst w)
   \<and> snd (snd (writer_push_buf e src sz None w)) = snd (snd (writer_push_buf e src sz dst w))
   \<and> (fst (writer_push_buf e src sz (Some v) w) = 0 \<longrightarrow>
        fst (snd (writer_push_buf e src sz (Some v) w))
          = Some (fst (snd (push_buf_loop e (take sz src) False w))))"
    by (simp add: writer_push_buf_unfold case_prod_beta)
  show ?thesis using a b c by simp
qed

theorem edge_flag_written_only_on_success_witness:
  "fst (writer_push_u8 env_no_take 7 (Some True) running) = 372
   \<and> fst (snd (writer_push_u8 env_no_take 7 (Some True) running)) = Some True
   \<and> fst (writer_push_u8 env_no_send 7 (Some False) (running\<lparr>used := 16383\<rparr>)) = 387
   \<and> fst (snd (writer_push_u8 env_no_send 7 (Some False) (running\<lparr>used := 16383\<rparr>))) = Some False
   \<and> fst (writer_push_u8 env_ok 7 (Some False) (running\<lparr>used := 16383\<rparr>)) = 0
   \<and> fst (snd (writer_push_u8 env_ok 7 (Some False) (running\<lparr>used := 16383\<rparr>))) = Some True
   \<and> fst (writer_push_u8 env_ok 7 None (running\<lparr>used := 16383\<rparr>)) = 0
   \<and> fst (snd (writer_push_u8 env_ok 7 None (running\<lparr>used := 16383\<rparr>))) = None"
  using edge_flag_written_only_on_success
          [where e = env_no_take and b = 7 and dst = "Some True" and w = running]
        edge_flag_written_only_on_success
          [where e = env_no_send and b = 7 and dst = "Some False" and w = "running\<lparr>used := 16383\<rparr>"]
        edge_flag_written_only_on_success
          [where e = env_ok and b = 7 and dst = "Some False" and v = False
             and w = "running\<lparr>used := 16383\<rparr>"]
  by (simp add: writer_push_u8_unfold push_byte_def xQueueSend_def running_fields
      env_no_take_def env_no_send_def env_ok_def BUFF_SIZE_def Let_def)

end
